theory Spec2Isabelle
  imports Main "HOL-Library.Word"
begin

section \<open>The node taxonomy of ast/misc.go\<close>

text \<open>
  The Go code works on pointers: every \<open>Accept\<close> method has a pointer receiver, returns
  that pointer when it aborts, and assigns the result of a child's traversal to a field
  of the object behind the receiver. The model therefore keeps an explicit store. An
  address is an index into the store; a value of a pointer type or of an interface type
  (\<open>Node\<close>, \<open>ExprNode\<close>, \<open>DMLNode\<close>) is an optional address, \<open>None\<close> being Go's \<open>nil\<close>.
  (An interface value that wraps a nil pointer is not distinguished from the nil
  interface, with one exception stated at \<open>VariableAssignment_Accept\<close>.)
\<close>

type_synonym addr = nat
type_synonym node = "addr option"

text \<open>
  Modelled from the spec: the node kinds declared outside ast/misc.go (\<open>TableRef\<close>,
  \<open>ColumnRefExpr\<close>, \<open>PatternLikeExpr\<close>, the other expressions, the DML statements). The
  spec (section 1) says that they implement the same traversal contract for their own
  kinds; the model keeps of them a kind, an opaque integer payload and an ordered
  sequence of children. \<open>ColumnRefExpr\<close>, \<open>PatternLikeExpr\<close> and \<open>Expr\<close> have the
  capability \<open>ExprNode\<close>; \<open>DML\<close> has the capability \<open>DMLNode\<close>.
\<close>

datatype kind = TableRef | ColumnRefExpr | PatternLikeExpr | Expr | DML | Other

text \<open>
  One constructor per struct of ast/misc.go, the fields in the order of the source. The
  embedded \<open>stmtNode\<close> and \<open>node\<close> (declared elsewhere, never touched by \<open>Accept\<close>) are left
  out. The fields of \<open>ShowStmt\<close> are \<open>Target\<close>, \<open>DBName\<close>, \<open>Table\<close>, \<open>Column\<close>, \<open>Flag\<close>,
  \<open>Full\<close>, \<open>GlobalScope\<close>, \<open>Pattern\<close>, \<open>Where\<close>.
\<close>

datatype obj =
    ExplainStmt node
  | PrepareStmt bool string "32 word" node
  | DeallocateStmt string "32 word"
  | ExecuteStmt string "32 word" "node list"
  | ShowStmt int string node node int bool bool node node
  | BeginStmt
  | CommitStmt
  | RollbackStmt
  | UseStmt string
  | VariableAssignment string node bool bool
  | SetStmt "node list"
  | Foreign kind int "node list"

type_synonym heap = "obj list"

definition lookup :: "heap \<Rightarrow> addr \<Rightarrow> obj option" where
  "lookup h a = (if a < length h then Some (h ! a) else None)"

subsection \<open>Reading and writing the child fields\<close>

text \<open>
  A read of a field goes through the store at the moment of the read, as a field access
  through the receiver does. It yields \<open>None\<close> when the address holds no object of the
  struct type; Go's static typing excludes that, and the traversal then stops with
  \<open>BadHeap\<close>.
\<close>

definition get_Stmt :: "heap \<Rightarrow> addr \<Rightarrow> node option" where
  "get_Stmt h a = (case lookup h a of Some (ExplainStmt x) \<Rightarrow> Some x | _ \<Rightarrow> None)"

definition get_SQLStmt :: "heap \<Rightarrow> addr \<Rightarrow> node option" where
  "get_SQLStmt h a = (case lookup h a of Some (PrepareStmt _ _ _ x) \<Rightarrow> Some x | _ \<Rightarrow> None)"

definition get_UsingVars :: "heap \<Rightarrow> addr \<Rightarrow> node list option" where
  "get_UsingVars h a = (case lookup h a of Some (ExecuteStmt _ _ xs) \<Rightarrow> Some xs | _ \<Rightarrow> None)"

definition get_Table :: "heap \<Rightarrow> addr \<Rightarrow> node option" where
  "get_Table h a = (case lookup h a of Some (ShowStmt _ _ x _ _ _ _ _ _) \<Rightarrow> Some x | _ \<Rightarrow> None)"

definition get_Column :: "heap \<Rightarrow> addr \<Rightarrow> node option" where
  "get_Column h a = (case lookup h a of Some (ShowStmt _ _ _ x _ _ _ _ _) \<Rightarrow> Some x | _ \<Rightarrow> None)"

definition get_Pattern :: "heap \<Rightarrow> addr \<Rightarrow> node option" where
  "get_Pattern h a = (case lookup h a of Some (ShowStmt _ _ _ _ _ _ _ x _) \<Rightarrow> Some x | _ \<Rightarrow> None)"

definition get_Where :: "heap \<Rightarrow> addr \<Rightarrow> node option" where
  "get_Where h a = (case lookup h a of Some (ShowStmt _ _ _ _ _ _ _ _ x) \<Rightarrow> Some x | _ \<Rightarrow> None)"

definition get_Value :: "heap \<Rightarrow> addr \<Rightarrow> node option" where
  "get_Value h a = (case lookup h a of Some (VariableAssignment _ x _ _) \<Rightarrow> Some x | _ \<Rightarrow> None)"

definition get_Variables :: "heap \<Rightarrow> addr \<Rightarrow> node list option" where
  "get_Variables h a = (case lookup h a of Some (SetStmt xs) \<Rightarrow> Some xs | _ \<Rightarrow> None)"

definition get_Children :: "heap \<Rightarrow> addr \<Rightarrow> node list option" where
  "get_Children h a = (case lookup h a of Some (Foreign _ _ xs) \<Rightarrow> Some xs | _ \<Rightarrow> None)"

text \<open>An assignment to a field writes the object behind the receiver in place.\<close>

fun set_Stmt :: "node \<Rightarrow> obj \<Rightarrow> obj" where
  "set_Stmt x (ExplainStmt _) = ExplainStmt x"
| "set_Stmt x ob = ob"

fun set_SQLStmt :: "node \<Rightarrow> obj \<Rightarrow> obj" where
  "set_SQLStmt x (PrepareStmt p n i _) = PrepareStmt p n i x"
| "set_SQLStmt x ob = ob"

fun set_UsingVars :: "nat \<Rightarrow> node \<Rightarrow> obj \<Rightarrow> obj" where
  "set_UsingVars i x (ExecuteStmt n d xs) = ExecuteStmt n d (xs[i := x])"
| "set_UsingVars i x ob = ob"

fun set_Table :: "node \<Rightarrow> obj \<Rightarrow> obj" where
  "set_Table x (ShowStmt tg db _ cl fl fu gs pt wh) = ShowStmt tg db x cl fl fu gs pt wh"
| "set_Table x ob = ob"

fun set_Column :: "node \<Rightarrow> obj \<Rightarrow> obj" where
  "set_Column x (ShowStmt tg db tb _ fl fu gs pt wh) = ShowStmt tg db tb x fl fu gs pt wh"
| "set_Column x ob = ob"

fun set_Pattern :: "node \<Rightarrow> obj \<Rightarrow> obj" where
  "set_Pattern x (ShowStmt tg db tb cl fl fu gs _ wh) = ShowStmt tg db tb cl fl fu gs x wh"
| "set_Pattern x ob = ob"

fun set_Where :: "node \<Rightarrow> obj \<Rightarrow> obj" where
  "set_Where x (ShowStmt tg db tb cl fl fu gs pt _) = ShowStmt tg db tb cl fl fu gs pt x"
| "set_Where x ob = ob"

fun set_Value :: "node \<Rightarrow> obj \<Rightarrow> obj" where
  "set_Value x (VariableAssignment n _ g s) = VariableAssignment n x g s"
| "set_Value x ob = ob"

fun set_Variables :: "nat \<Rightarrow> node \<Rightarrow> obj \<Rightarrow> obj" where
  "set_Variables i x (SetStmt xs) = SetStmt (xs[i := x])"
| "set_Variables i x ob = ob"

fun set_Children :: "nat \<Rightarrow> node \<Rightarrow> obj \<Rightarrow> obj" where
  "set_Children i x (Foreign k p xs) = Foreign k p (xs[i := x])"
| "set_Children i x ob = ob"

definition assign :: "(obj \<Rightarrow> obj) \<Rightarrow> addr \<Rightarrow> heap \<Rightarrow> heap" where
  "assign f a h = (if a < length h then h[a := f (h ! a)] else h)"

subsection \<open>Type assertions\<close>

text \<open>
  \<open>node.(T)\<close> succeeds when the dynamic type of \<open>node\<close> is assignable to \<open>T\<close>; on the nil
  interface it fails. None of the structs of ast/misc.go is an expression, a DML
  statement or a table reference: the file declares them as \<open>StmtNode\<close>, and
  \<open>VariableAssignment\<close> as \<open>Node\<close>.
\<close>

definition is_DMLNode :: "heap \<Rightarrow> node \<Rightarrow> bool" where
  "is_DMLNode h n = (case n of None \<Rightarrow> False | Some a \<Rightarrow>
     (case lookup h a of Some (Foreign k _ _) \<Rightarrow> k = DML | _ \<Rightarrow> False))"

definition is_ExprNode :: "heap \<Rightarrow> node \<Rightarrow> bool" where
  "is_ExprNode h n = (case n of None \<Rightarrow> False | Some a \<Rightarrow>
     (case lookup h a of
        Some (Foreign k _ _) \<Rightarrow> k = ColumnRefExpr \<or> k = PatternLikeExpr \<or> k = Expr
      | _ \<Rightarrow> False))"

definition is_TableRef :: "heap \<Rightarrow> node \<Rightarrow> bool" where
  "is_TableRef h n = (case n of None \<Rightarrow> False | Some a \<Rightarrow>
     (case lookup h a of Some (Foreign k _ _) \<Rightarrow> k = TableRef | _ \<Rightarrow> False))"

definition is_ColumnRefExpr :: "heap \<Rightarrow> node \<Rightarrow> bool" where
  "is_ColumnRefExpr h n = (case n of None \<Rightarrow> False | Some a \<Rightarrow>
     (case lookup h a of Some (Foreign k _ _) \<Rightarrow> k = ColumnRefExpr | _ \<Rightarrow> False))"

definition is_PatternLikeExpr :: "heap \<Rightarrow> node \<Rightarrow> bool" where
  "is_PatternLikeExpr h n = (case n of None \<Rightarrow> False | Some a \<Rightarrow>
     (case lookup h a of Some (Foreign k _ _) \<Rightarrow> k = PatternLikeExpr | _ \<Rightarrow> False))"

definition is_VariableAssignment :: "heap \<Rightarrow> node \<Rightarrow> bool" where
  "is_VariableAssignment h n = (case n of None \<Rightarrow> False | Some a \<Rightarrow>
     (case lookup h a of Some (VariableAssignment _ _ _ _) \<Rightarrow> True | _ \<Rightarrow> False))"

definition is_Node :: "heap \<Rightarrow> node \<Rightarrow> bool" where
  "is_Node h n = True"

section \<open>The visitor\<close>

text \<open>
  Modelled from the spec: the interface \<open>Visitor\<close> (declared outside ast/misc.go), section
  4.2: \<open>Enter(node) -> shouldDescend\<close> and \<open>Leave(node) -> (replacement, shouldContinue)\<close>.
  A visitor owns a state of its own (type \<open>'vs\<close>) and reads the store. \<open>Leave\<close> may
  allocate: the objects it returns third are appended to the store, so the first of them
  gets the address \<open>length h\<close>. A visitor does not write into objects that exist already:
  by section 3 of the spec nodes are mutated only through the replacement mechanism.
\<close>

datatype 'vs Visitor = Visitor
  (Enter: "node \<Rightarrow> heap \<Rightarrow> 'vs \<Rightarrow> bool \<times> 'vs")
  (Leave: "node \<Rightarrow> heap \<Rightarrow> 'vs \<Rightarrow> (node \<times> bool) \<times> obj list \<times> 'vs")

section \<open>Results of a traversal\<close>

text \<open>
  A call of \<open>Accept\<close> returns a node and a flag, and leaves a store and a visitor state
  behind; or it panics; or it does not return (\<open>None\<close>: the recursion ran out of fuel).
\<close>

datatype panic = NilDereference | TypeAssertion | BadHeap

type_synonym 'vs result = "(panic + (node \<times> bool) \<times> heap \<times> 'vs) option"

definition returned :: "node \<times> bool \<Rightarrow> heap \<Rightarrow> 'vs \<Rightarrow> 'vs result" where
  "returned r h s = Some (Inr (r, h, s))"

text \<open>\<open>return v.Leave(self)\<close>\<close>

definition return_Leave :: "'vs Visitor \<Rightarrow> node \<Rightarrow> heap \<Rightarrow> 'vs \<Rightarrow> 'vs result" where
  "return_Leave v self h s =
     (case Leave v self h s of (r, new, s') \<Rightarrow> returned r (h @ new) s')"

text \<open>
  The block that every method repeats for a child \<open>c\<close> stored in field \<open>F\<close> of static type
  \<open>T\<close>:
  \<^verbatim>\<open>
    node, ok := c.Accept(v)
    if !ok {
        return self, false
    }
    self.F = node.(T)
  \<close>
  \<open>child r self cast put rest\<close> takes the result \<open>r\<close> of \<open>c.Accept(v)\<close> and runs \<open>rest\<close>, the
  remainder of the method, after the assignment.
\<close>

definition child ::
  "'vs result \<Rightarrow> addr \<Rightarrow> (heap \<Rightarrow> node \<Rightarrow> bool) \<Rightarrow> (node \<Rightarrow> obj \<Rightarrow> obj) \<Rightarrow>
   (heap \<Rightarrow> 'vs \<Rightarrow> 'vs result) \<Rightarrow> 'vs result" where
  "child r self cast put rest =
     (case r of
        None \<Rightarrow> None
      | Some (Inl p) \<Rightarrow> Some (Inl p)
      | Some (Inr ((node, ok), h, s)) \<Rightarrow>
          if \<not> ok then returned (Some self, False) h s
          else if \<not> cast h node then Some (Inl TypeAssertion)
          else rest (assign (put node) self h) s)"

text \<open>
  \<^verbatim>\<open>
    for i, val := range self.F {
        node, ok := val.Accept(v)
        if !ok {
            return self, false
        }
        self.F[i] = node.(T)
    }
    return v.Leave(self)
  \<close>
  \<open>range_from call get cast put v self n i\<close> is the method from iteration \<open>i\<close> on. The
  range expression is evaluated once, so the number \<open>n\<close> of iterations is fixed when the
  loop starts; element \<open>i\<close> is read when iteration \<open>i\<close> starts. \<open>call\<close> is the \<open>Accept\<close> of
  the elements.
\<close>

function range_from ::
  "(node \<Rightarrow> heap \<Rightarrow> 'vs \<Rightarrow> 'vs result) \<Rightarrow> (heap \<Rightarrow> addr \<Rightarrow> node list option) \<Rightarrow>
   (heap \<Rightarrow> node \<Rightarrow> bool) \<Rightarrow> (nat \<Rightarrow> node \<Rightarrow> obj \<Rightarrow> obj) \<Rightarrow> 'vs Visitor \<Rightarrow> addr \<Rightarrow>
   nat \<Rightarrow> nat \<Rightarrow> heap \<Rightarrow> 'vs \<Rightarrow> 'vs result" where
  "range_from call get cast put v self n i h s =
     (if i < n then
        (case get h self of
           None \<Rightarrow> Some (Inl BadHeap)
         | Some xs \<Rightarrow>
             if length xs \<le> i then Some (Inl BadHeap)
             else child (call (xs ! i) h s) self cast (put i)
                    (range_from call get cast put v self n (Suc i)))
      else return_Leave v (Some self) h s)"
  by pat_completeness auto
termination
  by (relation "measure (\<lambda>(call, get, cast, put, v, self, n, i, h, s). n - i)") auto

declare range_from.simps [simp del]

section \<open>The Accept methods\<close>

text \<open>
  Each method takes \<open>acc\<close>, the \<open>Accept\<close> that a call through an interface value
  dispatches to (defined below, by recursion), the visitor, the receiver, the store and
  the visitor's state.
\<close>

text \<open>\<open>func (es *ExplainStmt) Accept(v Visitor) (Node, bool)\<close>, lines 50 to 60.\<close>

definition ExplainStmt_Accept ::
  "(node \<Rightarrow> heap \<Rightarrow> 'vs \<Rightarrow> 'vs result) \<Rightarrow> 'vs Visitor \<Rightarrow> addr \<Rightarrow> heap \<Rightarrow> 'vs \<Rightarrow> 'vs result" where
  "ExplainStmt_Accept acc v es h s =
     (case Enter v (Some es) h s of
        (False, s1) \<Rightarrow> returned (Some es, False) h s1
      | (True, s1) \<Rightarrow>
          (case get_Stmt h es of
             None \<Rightarrow> Some (Inl BadHeap)
           | Some stmt \<Rightarrow>
               child (acc stmt h s1) es is_DMLNode set_Stmt (return_Leave v (Some es))))"

text \<open>
  \<open>func (ps *PrepareStmt) Accept(v Visitor) (Node, bool)\<close>, lines 75 to 85. The
  assignment \<open>ps.SQLStmt = node\<close> has no type assertion.
\<close>

definition PrepareStmt_Accept ::
  "(node \<Rightarrow> heap \<Rightarrow> 'vs \<Rightarrow> 'vs result) \<Rightarrow> 'vs Visitor \<Rightarrow> addr \<Rightarrow> heap \<Rightarrow> 'vs \<Rightarrow> 'vs result" where
  "PrepareStmt_Accept acc v ps h s =
     (case Enter v (Some ps) h s of
        (False, s1) \<Rightarrow> returned (Some ps, False) h s1
      | (True, s1) \<Rightarrow>
          (case get_SQLStmt h ps of
             None \<Rightarrow> Some (Inl BadHeap)
           | Some stmt \<Rightarrow>
               child (acc stmt h s1) ps is_Node set_SQLStmt (return_Leave v (Some ps))))"

text \<open>
  The methods of the structs without children: \<open>DeallocateStmt\<close> (lines 97 to 102),
  \<open>BeginStmt\<close> (190 to 195), \<open>CommitStmt\<close> (204 to 209), \<open>RollbackStmt\<close> (218 to 223) and
  \<open>UseStmt\<close> (234 to 239) have the same body.
\<close>

definition DeallocateStmt_Accept :: "'vs Visitor \<Rightarrow> addr \<Rightarrow> heap \<Rightarrow> 'vs \<Rightarrow> 'vs result" where
  "DeallocateStmt_Accept v ds h s =
     (case Enter v (Some ds) h s of
        (False, s1) \<Rightarrow> returned (Some ds, False) h s1
      | (True, s1) \<Rightarrow> return_Leave v (Some ds) h s1)"

definition BeginStmt_Accept :: "'vs Visitor \<Rightarrow> addr \<Rightarrow> heap \<Rightarrow> 'vs \<Rightarrow> 'vs result" where
  "BeginStmt_Accept v bs h s =
     (case Enter v (Some bs) h s of
        (False, s1) \<Rightarrow> returned (Some bs, False) h s1
      | (True, s1) \<Rightarrow> return_Leave v (Some bs) h s1)"

definition CommitStmt_Accept :: "'vs Visitor \<Rightarrow> addr \<Rightarrow> heap \<Rightarrow> 'vs \<Rightarrow> 'vs result" where
  "CommitStmt_Accept v cs h s =
     (case Enter v (Some cs) h s of
        (False, s1) \<Rightarrow> returned (Some cs, False) h s1
      | (True, s1) \<Rightarrow> return_Leave v (Some cs) h s1)"

definition RollbackStmt_Accept :: "'vs Visitor \<Rightarrow> addr \<Rightarrow> heap \<Rightarrow> 'vs \<Rightarrow> 'vs result" where
  "RollbackStmt_Accept v rs h s =
     (case Enter v (Some rs) h s of
        (False, s1) \<Rightarrow> returned (Some rs, False) h s1
      | (True, s1) \<Rightarrow> return_Leave v (Some rs) h s1)"

definition UseStmt_Accept :: "'vs Visitor \<Rightarrow> addr \<Rightarrow> heap \<Rightarrow> 'vs \<Rightarrow> 'vs result" where
  "UseStmt_Accept v us h s =
     (case Enter v (Some us) h s of
        (False, s1) \<Rightarrow> returned (Some us, False) h s1
      | (True, s1) \<Rightarrow> return_Leave v (Some us) h s1)"

text \<open>\<open>func (es *ExecuteStmt) Accept(v Visitor) (Node, bool)\<close>, lines 115 to 127.\<close>

definition ExecuteStmt_Accept ::
  "(node \<Rightarrow> heap \<Rightarrow> 'vs \<Rightarrow> 'vs result) \<Rightarrow> 'vs Visitor \<Rightarrow> addr \<Rightarrow> heap \<Rightarrow> 'vs \<Rightarrow> 'vs result" where
  "ExecuteStmt_Accept acc v es h s =
     (case Enter v (Some es) h s of
        (False, s1) \<Rightarrow> returned (Some es, False) h s1
      | (True, s1) \<Rightarrow>
          (case get_UsingVars h es of
             None \<Rightarrow> Some (Inl BadHeap)
           | Some vars \<Rightarrow>
               range_from acc get_UsingVars is_ExprNode set_UsingVars v es (length vars) 0 h s1))"

text \<open>
  \<open>func (ss *ShowStmt) Accept(v Visitor) (Node, bool)\<close>, lines 148 to 181.
  \<open>ShowStmt_Where\<close> is the method from line 173 on, \<open>ShowStmt_Pattern\<close> from line 166 on,
  \<open>ShowStmt_Column\<close> from line 159 on and \<open>ShowStmt_Table\<close> from line 152 on.
\<close>

definition ShowStmt_Where ::
  "(node \<Rightarrow> heap \<Rightarrow> 'vs \<Rightarrow> 'vs result) \<Rightarrow> 'vs Visitor \<Rightarrow> addr \<Rightarrow> heap \<Rightarrow> 'vs \<Rightarrow> 'vs result" where
  "ShowStmt_Where acc v ss h s =
     (case get_Where h ss of
        None \<Rightarrow> Some (Inl BadHeap)
      | Some None \<Rightarrow> return_Leave v (Some ss) h s
      | Some (Some w) \<Rightarrow>
          child (acc (Some w) h s) ss is_ExprNode set_Where (return_Leave v (Some ss)))"

definition ShowStmt_Pattern ::
  "(node \<Rightarrow> heap \<Rightarrow> 'vs \<Rightarrow> 'vs result) \<Rightarrow> 'vs Visitor \<Rightarrow> addr \<Rightarrow> heap \<Rightarrow> 'vs \<Rightarrow> 'vs result" where
  "ShowStmt_Pattern acc v ss h s =
     (case get_Pattern h ss of
        None \<Rightarrow> Some (Inl BadHeap)
      | Some None \<Rightarrow> ShowStmt_Where acc v ss h s
      | Some (Some p) \<Rightarrow>
          child (acc (Some p) h s) ss is_PatternLikeExpr set_Pattern (ShowStmt_Where acc v ss))"

definition ShowStmt_Column ::
  "(node \<Rightarrow> heap \<Rightarrow> 'vs \<Rightarrow> 'vs result) \<Rightarrow> 'vs Visitor \<Rightarrow> addr \<Rightarrow> heap \<Rightarrow> 'vs \<Rightarrow> 'vs result" where
  "ShowStmt_Column acc v ss h s =
     (case get_Column h ss of
        None \<Rightarrow> Some (Inl BadHeap)
      | Some None \<Rightarrow> ShowStmt_Pattern acc v ss h s
      | Some (Some c) \<Rightarrow>
          child (acc (Some c) h s) ss is_ColumnRefExpr set_Column (ShowStmt_Pattern acc v ss))"

definition ShowStmt_Table ::
  "(node \<Rightarrow> heap \<Rightarrow> 'vs \<Rightarrow> 'vs result) \<Rightarrow> 'vs Visitor \<Rightarrow> addr \<Rightarrow> heap \<Rightarrow> 'vs \<Rightarrow> 'vs result" where
  "ShowStmt_Table acc v ss h s =
     (case get_Table h ss of
        None \<Rightarrow> Some (Inl BadHeap)
      | Some None \<Rightarrow> ShowStmt_Column acc v ss h s
      | Some (Some t) \<Rightarrow>
          child (acc (Some t) h s) ss is_TableRef set_Table (ShowStmt_Column acc v ss))"

definition ShowStmt_Accept ::
  "(node \<Rightarrow> heap \<Rightarrow> 'vs \<Rightarrow> 'vs result) \<Rightarrow> 'vs Visitor \<Rightarrow> addr \<Rightarrow> heap \<Rightarrow> 'vs \<Rightarrow> 'vs result" where
  "ShowStmt_Accept acc v ss h s =
     (case Enter v (Some ss) h s of
        (False, s1) \<Rightarrow> returned (Some ss, False) h s1
      | (True, s1) \<Rightarrow> ShowStmt_Table acc v ss h s1)"

text \<open>
  \<open>func (va *VariableAssignment) Accept(v Visitor) (Node, bool)\<close>, lines 251 to 261.
  \<open>SetStmt.Accept\<close> calls this method on the elements of a slice of pointers, so the
  receiver can be the nil pointer: then \<open>Enter\<close> is called on it, and \<open>va.Value\<close> panics.
\<close>

definition VariableAssignment_Accept ::
  "(node \<Rightarrow> heap \<Rightarrow> 'vs \<Rightarrow> 'vs result) \<Rightarrow> 'vs Visitor \<Rightarrow> node \<Rightarrow> heap \<Rightarrow> 'vs \<Rightarrow> 'vs result" where
  "VariableAssignment_Accept acc v va h s =
     (case Enter v va h s of
        (False, s1) \<Rightarrow> returned (va, False) h s1
      | (True, s1) \<Rightarrow>
          (case va of
             None \<Rightarrow> Some (Inl NilDereference)
           | Some a \<Rightarrow>
               (case get_Value h a of
                  None \<Rightarrow> Some (Inl BadHeap)
                | Some val \<Rightarrow>
                    child (acc val h s1) a is_ExprNode set_Value (return_Leave v va))))"

text \<open>
  \<open>func (set *SetStmt) Accept(v Visitor) (Node, bool)\<close>, lines 271 to 283. The elements
  have the static type \<open>*VariableAssignment\<close>, so \<open>val.Accept\<close> is the method above.
\<close>

definition SetStmt_Accept ::
  "(node \<Rightarrow> heap \<Rightarrow> 'vs \<Rightarrow> 'vs result) \<Rightarrow> 'vs Visitor \<Rightarrow> addr \<Rightarrow> heap \<Rightarrow> 'vs \<Rightarrow> 'vs result" where
  "SetStmt_Accept acc v set' h s =
     (case Enter v (Some set') h s of
        (False, s1) \<Rightarrow> returned (Some set', False) h s1
      | (True, s1) \<Rightarrow>
          (case get_Variables h set' of
             None \<Rightarrow> Some (Inl BadHeap)
           | Some vars \<Rightarrow>
               range_from (VariableAssignment_Accept acc v) get_Variables is_VariableAssignment
                 set_Variables v set' (length vars) 0 h s1))"

text \<open>
  Modelled from the spec: the \<open>Accept\<close> of the node kinds declared outside ast/misc.go.
  It is the per-node algorithm of section 4.2 of the spec, with the children as an
  ordered sequence of capability \<open>Node\<close>.
\<close>

definition Foreign_Accept ::
  "(node \<Rightarrow> heap \<Rightarrow> 'vs \<Rightarrow> 'vs result) \<Rightarrow> 'vs Visitor \<Rightarrow> addr \<Rightarrow> heap \<Rightarrow> 'vs \<Rightarrow> 'vs result" where
  "Foreign_Accept acc v n h s =
     (case Enter v (Some n) h s of
        (False, s1) \<Rightarrow> returned (Some n, False) h s1
      | (True, s1) \<Rightarrow>
          (case get_Children h n of
             None \<Rightarrow> Some (Inl BadHeap)
           | Some cs \<Rightarrow>
               range_from acc get_Children is_Node set_Children v n (length cs) 0 h s1))"

text \<open>
  A call \<open>n.Accept(v)\<close> through an interface value: on the nil interface it panics,
  otherwise the dynamic type of \<open>n\<close> selects the method. The recursion of the methods
  through their children need not end (the store may hold a cycle), so the depth of the
  calls is bounded by a fuel; \<open>None\<close> says that the fuel did not suffice.
\<close>

primrec Accept :: "nat \<Rightarrow> 'vs Visitor \<Rightarrow> node \<Rightarrow> heap \<Rightarrow> 'vs \<Rightarrow> 'vs result" where
  "Accept 0 v n h s = None"
| "Accept (Suc k) v n h s =
     (case n of
        None \<Rightarrow> Some (Inl NilDereference)
      | Some a \<Rightarrow>
          (case lookup h a of
             None \<Rightarrow> Some (Inl BadHeap)
           | Some (ExplainStmt _) \<Rightarrow> ExplainStmt_Accept (Accept k v) v a h s
           | Some (PrepareStmt _ _ _ _) \<Rightarrow> PrepareStmt_Accept (Accept k v) v a h s
           | Some (DeallocateStmt _ _) \<Rightarrow> DeallocateStmt_Accept v a h s
           | Some (ExecuteStmt _ _ _) \<Rightarrow> ExecuteStmt_Accept (Accept k v) v a h s
           | Some (ShowStmt _ _ _ _ _ _ _ _ _) \<Rightarrow> ShowStmt_Accept (Accept k v) v a h s
           | Some BeginStmt \<Rightarrow> BeginStmt_Accept v a h s
           | Some CommitStmt \<Rightarrow> CommitStmt_Accept v a h s
           | Some RollbackStmt \<Rightarrow> RollbackStmt_Accept v a h s
           | Some (UseStmt _) \<Rightarrow> UseStmt_Accept v a h s
           | Some (VariableAssignment _ _ _ _) \<Rightarrow>
               VariableAssignment_Accept (Accept k v) v (Some a) h s
           | Some (SetStmt _) \<Rightarrow> SetStmt_Accept (Accept k v) v a h s
           | Some (Foreign _ _ _) \<Rightarrow> Foreign_Accept (Accept k v) v a h s))"

section \<open>Observing a traversal\<close>

text \<open>
  The calls that a traversal makes on the visitor are observed by a visitor that wraps
  another one and appends every call, with its argument and its result, to a log in its
  own state. The wrapped visitor sees the same arguments and states as without.
\<close>

datatype event = EvEnter node bool | EvLeave node node bool

definition recording :: "'vs Visitor \<Rightarrow> ('vs \<times> event list) Visitor" where
  "recording v = Visitor
     (\<lambda>n h (s, log). case Enter v n h s of (b, s') \<Rightarrow> (b, (s', log @ [EvEnter n b])))
     (\<lambda>n h (s, log). case Leave v n h s of
        ((r, ok), new, s') \<Rightarrow> ((r, ok), new, (s', log @ [EvLeave n r ok])))"

text \<open>The identity visitor: never aborts, never replaces, keeps no state.\<close>

definition identity_visitor :: "unit Visitor" where
  "identity_visitor = Visitor (\<lambda>n h s. (True, s)) (\<lambda>n h s. ((n, True), [], s))"

subsection \<open>Deep equality\<close>

text \<open>
  Two nodes are deep-equal when the trees behind them are equal: the same structs with
  the same fields, pointers compared by what they point to. \<open>tree_of\<close> unfolds the store
  below a node into a value, to a bounded depth (\<open>None\<close> beyond it, or when an address
  holds no object).
\<close>

datatype tree = Nil_tree | Tree obj "tree list"

fun fields :: "obj \<Rightarrow> node list" where
  "fields (ExplainStmt x) = [x]"
| "fields (PrepareStmt _ _ _ x) = [x]"
| "fields (ExecuteStmt _ _ xs) = xs"
| "fields (ShowStmt _ _ tb cl _ _ _ pt wh) = [tb, cl, pt, wh]"
| "fields (VariableAssignment _ x _ _) = [x]"
| "fields (SetStmt xs) = xs"
| "fields (Foreign _ _ xs) = xs"
| "fields ob = []"

fun scalars :: "obj \<Rightarrow> obj" where
  "scalars (ExplainStmt _) = ExplainStmt None"
| "scalars (PrepareStmt p n i _) = PrepareStmt p n i None"
| "scalars (ExecuteStmt n i _) = ExecuteStmt n i []"
| "scalars (ShowStmt tg db _ _ fl fu gs _ _) = ShowStmt tg db None None fl fu gs None None"
| "scalars (VariableAssignment n _ g s) = VariableAssignment n None g s"
| "scalars (SetStmt _) = SetStmt []"
| "scalars (Foreign k p _) = Foreign k p []"
| "scalars ob = ob"

fun tree_of :: "nat \<Rightarrow> heap \<Rightarrow> node \<Rightarrow> tree option" where
  "tree_of k h None = Some Nil_tree"
| "tree_of 0 h (Some a) = None"
| "tree_of (Suc k) h (Some a) =
     (case lookup h a of
        None \<Rightarrow> None
      | Some ob \<Rightarrow>
          (let ts = map (tree_of k h) (fields ob)
           in if None \<in> set ts then None else Some (Tree (scalars ob) (map the ts))))"

section \<open>The uniform algorithm\<close>

text \<open>
  Section 4.2 of the spec gives one algorithm for every node: call \<open>Enter\<close>; for each
  declared child in order, traverse it, return \<open>(self, false)\<close> when it fails, and write
  its result back into the field otherwise; then return what \<open>Leave\<close> returns. The two
  relations below state it once, with the write-back as the code has it: in place, as
  soon as the child has succeeded. \<open>sub c h s res\<close> says that the traversal of a child \<open>c\<close>,
  started in store \<open>h\<close> and visitor state \<open>s\<close>, returned \<open>res\<close>.
\<close>

inductive body ::
  "'vs Visitor \<Rightarrow> (node \<Rightarrow> heap \<Rightarrow> 'vs \<Rightarrow> (node \<times> bool) \<times> heap \<times> 'vs \<Rightarrow> bool) \<Rightarrow> addr \<Rightarrow>
   heap \<Rightarrow> 'vs \<Rightarrow> (node \<times> bool) \<times> heap \<times> 'vs \<Rightarrow> bool"
  for v sub a where
  body_Leave: "Leave v (Some a) h s = (r, new, s') \<Longrightarrow> body v sub a h s (r, h @ new, s')"
| body_abort: "sub c h s ((x, False), h2, s2) \<Longrightarrow> body v sub a h s ((Some a, False), h2, s2)"
| body_child: "sub c h s ((x, True), h2, s2) \<Longrightarrow> body v sub a (h2[a := ob]) s2 res \<Longrightarrow>
     body v sub a h s res"

inductive frame ::
  "'vs Visitor \<Rightarrow> (node \<Rightarrow> heap \<Rightarrow> 'vs \<Rightarrow> (node \<times> bool) \<times> heap \<times> 'vs \<Rightarrow> bool) \<Rightarrow> node \<Rightarrow>
   heap \<Rightarrow> 'vs \<Rightarrow> (node \<times> bool) \<times> heap \<times> 'vs \<Rightarrow> bool"
  for v sub where
  frame_refused: "Enter v n h s = (False, s1) \<Longrightarrow> frame v sub n h s ((n, False), h, s1)"
| frame_entered: "Enter v (Some a) h s = (True, s1) \<Longrightarrow> body v sub a h s1 res \<Longrightarrow>
     frame v sub (Some a) h s res"

definition calls ::
  "(node \<Rightarrow> heap \<Rightarrow> 'vs \<Rightarrow> 'vs result) \<Rightarrow> node \<Rightarrow> heap \<Rightarrow> 'vs \<Rightarrow>
   (node \<times> bool) \<times> heap \<times> 'vs \<Rightarrow> bool" where
  "calls acc c h s res = (acc c h s = Some (Inr res))"

text \<open>
  The calls that a method makes for its children at fuel \<open>Suc k\<close>: through an interface
  value, or (in \<open>SetStmt.Accept\<close>) directly to \<open>VariableAssignment.Accept\<close>.
\<close>

definition child_calls ::
  "nat \<Rightarrow> 'vs Visitor \<Rightarrow> node \<Rightarrow> heap \<Rightarrow> 'vs \<Rightarrow> (node \<times> bool) \<times> heap \<times> 'vs \<Rightarrow> bool" where
  "child_calls k v c h s res =
     (Accept k v c h s = Some (Inr res) \<or>
      VariableAssignment_Accept (Accept k v) v c h s = Some (Inr res))"

subsection \<open>Logs\<close>

text \<open>
  A call on the visitor fails when it returns false: \<open>Enter\<close> refusing to descend, or
  \<open>Leave\<close> refusing to continue. A log is quiet when no call in it fails, and aborted when
  its last call fails and no call before it does.
\<close>

fun failing :: "event \<Rightarrow> bool" where
  "failing (EvEnter n b) = (\<not> b)"
| "failing (EvLeave n r ok) = (\<not> ok)"

definition quiet :: "event list \<Rightarrow> bool" where
  "quiet T = list_all (\<lambda>e. \<not> failing e) T"

definition aborted :: "event list \<Rightarrow> bool" where
  "aborted T = (T \<noteq> [] \<and> failing (last T) \<and> quiet (butlast T))"

text \<open>
  The log \<open>T\<close> of one traversal of the node \<open>n\<close> that returned \<open>(r, ok)\<close>, as section 4.2 of
  the spec orders the calls: \<open>Enter\<close> on \<open>n\<close> comes first. If it refuses, nothing follows
  and \<open>(n, false)\<close> is returned. Otherwise the calls of the children's traversals follow;
  either they are quiet and \<open>Leave\<close> on \<open>n\<close> is the last call and returns \<open>(r, ok)\<close>, or they
  end with a failing call and \<open>(n, false)\<close> is returned.
\<close>

definition protocol :: "node \<Rightarrow> node \<Rightarrow> bool \<Rightarrow> event list \<Rightarrow> bool" where
  "protocol n r ok T =
     (case T of
        [] \<Rightarrow> False
      | e # M \<Rightarrow>
          if M = [] then e = EvEnter n False \<and> r = n \<and> \<not> ok
          else e = EvEnter n True \<and>
               (last M = EvLeave n r ok \<and> quiet (butlast M) \<or> aborted M \<and> r = n \<and> \<not> ok))"

definition told :: "(node \<times> bool) \<times> heap \<times> 'vs \<times> event list \<Rightarrow> event list" where
  "told res = snd (snd (snd res))"

definition logs_outcome ::
  "(node \<Rightarrow> heap \<Rightarrow> 'vs \<times> event list \<Rightarrow> (node \<times> bool) \<times> heap \<times> 'vs \<times> event list \<Rightarrow> bool) \<Rightarrow>
   bool" where
  "logs_outcome sub =
     (\<forall>c h st res. sub c h st res \<longrightarrow>
        (\<exists>T. told res = snd st @ T \<and> (if snd (fst res) then quiet T else aborted T)))"

text \<open>
  What one invocation of a method does between its \<open>Enter\<close> and its \<open>Leave\<close>, with the calls
  recorded. \<open>children k v a h st Ts ok h' st'\<close>: from the store \<open>h\<close> and the state and log
  \<open>st\<close>, the method of the node at \<open>a\<close> has made the calls \<open>Accept\<close> for children one after
  the other, each started where the previous one ended; the \<open>i\<close>-th of them appended
  \<open>Ts ! i\<close> to the log; after each one that succeeded the method wrote its own object;
  \<open>ok\<close> is false when the last of them failed (no call follows it) and true when all
  succeeded. \<open>h'\<close> and \<open>st'\<close> are the store and the state and log at the end.
\<close>

inductive children ::
  "nat \<Rightarrow> 'vs Visitor \<Rightarrow> addr \<Rightarrow> heap \<Rightarrow> 'vs \<times> event list \<Rightarrow> event list list \<Rightarrow> bool \<Rightarrow>
   heap \<Rightarrow> 'vs \<times> event list \<Rightarrow> bool"
  for k v a where
  children_done: "children k v a h st [] True h st"
| children_failed:
    "child_calls k (recording v) c h (s, lg) ((x, False), h2, (s2, lg @ T)) \<Longrightarrow>
     children k v a h (s, lg) [T] False h2 (s2, lg @ T)"
| children_next:
    "child_calls k (recording v) c h (s, lg) ((x, True), h2, (s2, lg @ T)) \<Longrightarrow>
     children k v a (h2[a := ob]) (s2, lg @ T) Ts ok h3 st3 \<Longrightarrow>
     children k v a h (s, lg) (T # Ts) ok h3 st3"

text \<open>The structs without declared children.\<close>

fun childless :: "obj \<Rightarrow> bool" where
  "childless (DeallocateStmt _ _) = True"
| "childless BeginStmt = True"
| "childless CommitStmt = True"
| "childless RollbackStmt = True"
| "childless (UseStmt _) = True"
| "childless ob = False"

section \<open>Whole trees\<close>

text \<open>
  The declared children of a node, in the order of section 3 of the spec: the fields in
  the order in which the struct lists them, the elements of a sequence in sequence order,
  absent optional children left out.
\<close>

fun declared_children :: "obj \<Rightarrow> node list" where
  "declared_children (ExplainStmt x) = [x]"
| "declared_children (PrepareStmt _ _ _ x) = [x]"
| "declared_children (ExecuteStmt _ _ xs) = xs"
| "declared_children (ShowStmt _ _ tb cl _ _ _ pt wh) = filter (\<lambda>x. x \<noteq> None) [tb, cl, pt, wh]"
| "declared_children (VariableAssignment _ x _ _) = [x]"
| "declared_children (SetStmt xs) = xs"
| "declared_children (Foreign _ _ xs) = xs"
| "declared_children ob = []"

text \<open>
  The calls that a complete traversal makes when nothing aborts and nothing is replaced:
  \<open>Enter\<close> on the node, the calls for each declared child in order, \<open>Leave\<close> on the node.
  The first argument bounds the depth.
\<close>

fun visit_order :: "nat \<Rightarrow> heap \<Rightarrow> node \<Rightarrow> event list" where
  "visit_order 0 h n = []"
| "visit_order (Suc k) h None = []"
| "visit_order (Suc k) h (Some a) =
     (case lookup h a of
        None \<Rightarrow> []
      | Some ob \<Rightarrow>
          EvEnter (Some a) True # concat (map (visit_order k h) (declared_children ob)) @
          [EvLeave (Some a) (Some a) True])"

text \<open>
  A store is well formed below a node, to depth \<open>k\<close>, when every address holds an object,
  every required child is there, every child has the static type of its field, and the
  tree is not deeper than \<open>k\<close> (so it has no cycle). This is the producer contract of
  section 6 of the spec.
\<close>

fun typed :: "heap \<Rightarrow> obj \<Rightarrow> bool" where
  "typed h (ExplainStmt x) = is_DMLNode h x"
| "typed h (ExecuteStmt _ _ xs) = list_all (is_ExprNode h) xs"
| "typed h (ShowStmt _ _ tb cl _ _ _ pt wh) =
     ((tb = None \<or> is_TableRef h tb) \<and> (cl = None \<or> is_ColumnRefExpr h cl) \<and>
      (pt = None \<or> is_PatternLikeExpr h pt) \<and> (wh = None \<or> is_ExprNode h wh))"
| "typed h (VariableAssignment _ x _ _) = is_ExprNode h x"
| "typed h (SetStmt xs) = list_all (is_VariableAssignment h) xs"
| "typed h ob = True"

fun well_formed :: "nat \<Rightarrow> heap \<Rightarrow> node \<Rightarrow> bool" where
  "well_formed 0 h n = False"
| "well_formed (Suc k) h None = False"
| "well_formed (Suc k) h (Some a) =
     (case lookup h a of
        None \<Rightarrow> False
      | Some ob \<Rightarrow> typed h ob \<and> list_all (well_formed k h) (declared_children ob))"

text \<open>
  A passive visitor never aborts, never replaces a node and allocates nothing; what its
  state does is up to it. \<open>replay v h T s\<close> is the state of the visitor \<open>v\<close> after the calls
  \<open>T\<close>, made in this order from the state \<open>s\<close> on the store \<open>h\<close>.
\<close>

definition passive_visitor :: "'vs Visitor \<Rightarrow> bool" where
  "passive_visitor v =
     (\<forall>n h s. fst (Enter v n h s) \<and> fst (Leave v n h s) = (n, True) \<and>
        fst (snd (Leave v n h s)) = [])"

fun call_of :: "'vs Visitor \<Rightarrow> heap \<Rightarrow> event \<Rightarrow> 'vs \<Rightarrow> 'vs" where
  "call_of v h (EvEnter n b) s = snd (Enter v n h s)"
| "call_of v h (EvLeave n r ok) s = snd (snd (Leave v n h s))"

definition replay :: "'vs Visitor \<Rightarrow> heap \<Rightarrow> event list \<Rightarrow> 'vs \<Rightarrow> 'vs" where
  "replay v h T s = fold (call_of v h) T s"

text \<open>A call that neither aborts nor replaces.\<close>

fun plain :: "event \<Rightarrow> bool" where
  "plain (EvEnter n b) = b"
| "plain (EvLeave n r ok) = (r = n \<and> ok)"

text \<open>
  \<open>deep_equal k h n h' n'\<close>: the tree behind \<open>n\<close> in the store \<open>h\<close> and the tree behind \<open>n'\<close>
  in the store \<open>h'\<close> exist (to depth \<open>k\<close>) and are equal.
\<close>

definition deep_equal :: "nat \<Rightarrow> heap \<Rightarrow> node \<Rightarrow> heap \<Rightarrow> node \<Rightarrow> bool" where
  "deep_equal k h n h' n' = (tree_of k h n \<noteq> None \<and> tree_of k h n = tree_of k h' n')"

text \<open>A visitor that never aborts (it may replace nodes).\<close>

definition nonaborting :: "'vs Visitor \<Rightarrow> bool" where
  "nonaborting v = (\<forall>n h s. fst (Enter v n h s) \<and> snd (fst (Leave v n h s)))"

section \<open>Example trees and visitors\<close>

text \<open>
  A literal \<open>Literal(n)\<close> is an expression without children whose payload is \<open>n\<close>. The
  visitor \<open>times_ten\<close> replaces, in \<open>Leave\<close>, every literal \<open>Literal(n)\<close> by a new literal
  \<open>Literal(n * 10)\<close> and keeps every other node; \<open>times_ten_until b\<close> does the same and
  refuses to enter the node at address \<open>b\<close>.
\<close>

definition Literal :: "int \<Rightarrow> obj" where
  "Literal n = Foreign Expr n []"

definition Leave_times_ten :: "node \<Rightarrow> heap \<Rightarrow> unit \<Rightarrow> (node \<times> bool) \<times> obj list \<times> unit" where
  "Leave_times_ten n h s =
     (case n of
        None \<Rightarrow> ((n, True), [], s)
      | Some a \<Rightarrow>
          (case lookup h a of
             Some (Foreign Expr p []) \<Rightarrow> ((Some (length h), True), [Literal (p * 10)], s)
           | _ \<Rightarrow> ((n, True), [], s)))"

definition times_ten :: "unit Visitor" where
  "times_ten = Visitor (\<lambda>n h s. (True, s)) Leave_times_ten"

definition times_ten_until :: "addr \<Rightarrow> unit Visitor" where
  "times_ten_until b = Visitor (\<lambda>n h s. (n \<noteq> Some b, s)) Leave_times_ten"

text \<open>
  \<open>SetStmt{Variables: [{Name: "x", Value: Literal(1)}, {Name: "y", Value: Literal(2),
  IsGlobal: true}]}\<close>, at address 4.
\<close>

definition set_example :: heap where
  "set_example =
     [Literal 1, Literal 2,
      VariableAssignment ''x'' (Some 0) False False,
      VariableAssignment ''y'' (Some 1) True False,
      SetStmt [Some 2, Some 3]]"

text \<open>\<open>ExecuteStmt{Name: "q", UsingVars: [Literal(1), Literal(2), Literal(3)]}\<close>, at address 3.\<close>

definition execute_example :: heap where
  "execute_example =
     [Literal 1, Literal 2, Literal 3, ExecuteStmt ''q'' 0 [Some 0, Some 1, Some 2]]"

text \<open>\<open>ShowStmt{Where: Literal(1)}\<close> with \<open>Table\<close>, \<open>Column\<close> and \<open>Pattern\<close> nil, at address 1.\<close>

definition show_example :: heap where
  "show_example = [Literal 1, ShowStmt 0 ''db'' None None 0 False False None (Some 0)]"

text \<open>
  \<open>ShowStmt\<close> with all four optional children, at address 4; \<open>ExplainStmt\<close> over a DML
  statement, \<open>PrepareStmt\<close> over \<open>BeginStmt\<close>, and a \<open>VariableAssignment\<close>, each at address 1.
\<close>

definition show_full_example :: heap where
  "show_full_example =
     [Foreign TableRef 0 [], Foreign ColumnRefExpr 0 [], Foreign PatternLikeExpr 0 [], Literal 1,
      ShowStmt 0 ''db'' (Some 0) (Some 1) 0 False False (Some 2) (Some 3)]"


definition prepare_example :: heap where
  "prepare_example = [BeginStmt, PrepareStmt True ''p'' 1 (Some 0)]"

definition assignment_example :: heap where
  "assignment_example = [Literal 7, VariableAssignment ''x'' (Some 0) False False]"

text \<open>The store of \<open>execute_example\<close> after the first parameter has been replaced.\<close>

definition execute_first_replaced :: heap where
  "execute_first_replaced =
     [Literal 1, Literal 2, Literal 3, ExecuteStmt ''q'' 0 [Some 4, Some 1, Some 2], Literal 10]"

section \<open>Every method runs the uniform algorithm\<close>

lemma assign_eq: "assign f a h = h[a := f (h ! a)]"
  by (simp add: assign_def list_update_beyond)

lemma child_simps:
  "child None self cast put rest = None"
  "child (Some (Inl p)) self cast put rest = Some (Inl p)"
  "child (Some (Inr ((x, False), h, s))) self cast put rest = returned (Some self, False) h s"
  "child (Some (Inr ((x, True), h, s))) self cast put rest =
     (if cast h x then rest (assign (put x) self h) s else Some (Inl TypeAssertion))"
  by (simp_all add: child_def)

lemma body_mono:
  assumes "body v sub a h s res" and "\<forall>c h s r. sub c h s r \<longrightarrow> sub' c h s r"
  shows "body v sub' a h s res"
  using assms
proof (induction rule: body.induct)
  case (body_Leave h s r new s')
  then show ?case by (blast intro: body.body_Leave)
next
  case (body_abort c h s x h2 s2)
  then show ?case by (blast intro: body.body_abort)
next
  case (body_child c h s x h2 s2 ob res)
  then show ?case by (blast intro: body.body_child)
qed

lemma frame_mono:
  assumes "frame v sub n h s res" and "\<forall>c h s r. sub c h s r \<longrightarrow> sub' c h s r"
  shows "frame v sub' n h s res"
  using assms(1)
proof (cases rule: frame.cases)
  case (frame_refused s1)
  then show ?thesis by (blast intro: frame.frame_refused)
next
  case (frame_entered a s1)
  then show ?thesis using assms(2) by (blast intro: frame.frame_entered body_mono)
qed

lemma return_Leave_body:
  "return_Leave v (Some a) h s = Some (Inr res) \<Longrightarrow> body v sub a h s res"
  by (auto simp: return_Leave_def returned_def split: prod.splits intro: body_Leave)

lemma Leave_bodies:
  "\<forall>h s. return_Leave v (Some a) h s = Some (Inr res) \<longrightarrow> body v sub a h s res"
  by (simp add: return_Leave_body)

lemma child_body:
  assumes "child (call c h s) a cast put rest = Some (Inr res)"
    and "\<forall>h' s'. rest h' s' = Some (Inr res) \<longrightarrow> body v (calls call) a h' s' res"
  shows "body v (calls call) a h s res"
proof (cases "call c h s")
  case None
  with assms(1) show ?thesis by (simp add: child_simps)
next
  case (Some o1)
  show ?thesis
  proof (cases o1)
    case (Inl p)
    with Some assms(1) show ?thesis by (simp add: child_simps)
  next
    case (Inr t)
    obtain x ok h2 s2 where t: "t = ((x, ok), h2, s2)" by (metis prod.exhaust)
    have r: "calls call c h s ((x, ok), h2, s2)" using Some Inr t by (simp add: calls_def)
    show ?thesis
    proof (cases ok)
      case False
      with assms(1) Some Inr t have "res = ((Some a, False), h2, s2)"
        by (simp add: child_simps returned_def)
      with r False show ?thesis by (auto intro: body_abort)
    next
      case True
      with assms(1) Some Inr t have "rest (assign (put x) a h2) s2 = Some (Inr res)"
        by (simp add: child_simps split: if_splits)
      then have "body v (calls call) a (h2[a := put x (h2 ! a)]) s2 res"
        using assms(2) by (simp add: assign_eq)
      with r True show ?thesis by (auto intro: body_child)
    qed
  qed
qed

lemma range_from_body:
  assumes "range_from call get cast put v a n i h s = Some (Inr res)"
  shows "body v (calls call) a h s res"
  using assms
proof (induction call get cast put v a n i h s rule: range_from.induct)
  case (1 call get cast put v self n i h s)
  note run = "1.prems"(1)[unfolded range_from.simps[of call get cast put v self n i h s]]
  show ?case
  proof (cases "i < n")
    case False
    with run show ?thesis by (simp add: return_Leave_body)
  next
    case True
    from True run obtain xs where xs: "get h self = Some xs" "\<not> length xs \<le> i"
      by (auto split: option.splits if_splits)
    with True run have c: "child (call (xs ! i) h s) self cast (put i)
        (range_from call get cast put v self n (Suc i)) = Some (Inr res)" by simp
    show ?thesis
      by (rule child_body[where call = call, OF c]) (use "1.IH"[OF True xs] in blast)
  qed
qed

lemma entered_frame:
  assumes "(case Enter v (Some a) h s of
              (False, s1) \<Rightarrow> returned (Some a, False) h s1
            | (True, s1) \<Rightarrow> B s1) = Some (Inr res)"
    and "\<forall>s1. B s1 = Some (Inr res) \<longrightarrow> body v sub a h s1 res"
  shows "frame v sub (Some a) h s res"
proof (cases "Enter v (Some a) h s")
  case (Pair b s1)
  show ?thesis
  proof (cases b)
    case False
    with Pair assms(1) show ?thesis by (auto simp: returned_def intro: frame_refused)
  next
    case True
    with Pair assms(1) have "B s1 = Some (Inr res)" by simp
    then have "body v sub a h s1 res" using assms(2) by blast
    with Pair True show ?thesis by (auto intro: frame_entered)
  qed
qed

lemma optional_body:
  assumes "(case g of
              None \<Rightarrow> Some (Inl BadHeap)
            | Some None \<Rightarrow> R h s
            | Some (Some c) \<Rightarrow> child (acc (Some c) h s) a cast put R) = Some (Inr res)"
    and "\<forall>h s. R h s = Some (Inr res) \<longrightarrow> body v (calls acc) a h s res"
  shows "body v (calls acc) a h s res"
proof (cases g)
  case None
  with assms(1) show ?thesis by simp
next
  case (Some f)
  show ?thesis
  proof (cases f)
    case None
    with Some assms show ?thesis by simp
  next
    case (Some c)
    with \<open>g = Some f\<close> assms(1) have
      c: "child (acc (Some c) h s) a cast put R = Some (Inr res)" by simp
    show ?thesis
      by (rule child_body[where call = acc, OF c]) (rule assms(2))
  qed
qed

lemma required_body:
  assumes "(case g of
              None \<Rightarrow> Some (Inl BadHeap)
            | Some c \<Rightarrow> child (acc c h s) a cast put R) = Some (Inr res)"
    and "\<forall>h s. R h s = Some (Inr res) \<longrightarrow> body v (calls acc) a h s res"
  shows "body v (calls acc) a h s res"
proof (cases g)
  case None
  with assms(1) show ?thesis by simp
next
  case (Some c)
  with assms(1) have c: "child (acc c h s) a cast put R = Some (Inr res)" by simp
  show ?thesis
    by (rule child_body[where call = acc, OF c]) (rule assms(2))
qed

lemma sequence_body:
  assumes "(case g of
              None \<Rightarrow> Some (Inl BadHeap)
            | Some xs \<Rightarrow> range_from call get cast put v a (length xs) 0 h s) = Some (Inr res)"
  shows "body v (calls call) a h s res"
proof (cases g)
  case None
  with assms(1) show ?thesis by simp
next
  case (Some xs)
  with assms(1) have "range_from call get cast put v a (length xs) 0 h s = Some (Inr res)"
    by simp
  then show ?thesis by (rule range_from_body)
qed

lemma ShowStmt_Where_body:
  "\<forall>h s. ShowStmt_Where acc v a h s = Some (Inr res) \<longrightarrow> body v (calls acc) a h s res"
  unfolding ShowStmt_Where_def
  by (intro allI impI, erule optional_body[where R = "return_Leave v (Some a)" and acc = acc])
     (rule Leave_bodies)

lemma ShowStmt_Pattern_body:
  "\<forall>h s. ShowStmt_Pattern acc v a h s = Some (Inr res) \<longrightarrow> body v (calls acc) a h s res"
  unfolding ShowStmt_Pattern_def
  by (intro allI impI, erule optional_body[where R = "ShowStmt_Where acc v a" and acc = acc])
     (rule ShowStmt_Where_body)

lemma ShowStmt_Column_body:
  "\<forall>h s. ShowStmt_Column acc v a h s = Some (Inr res) \<longrightarrow> body v (calls acc) a h s res"
  unfolding ShowStmt_Column_def
  by (intro allI impI, erule optional_body[where R = "ShowStmt_Pattern acc v a" and acc = acc])
     (rule ShowStmt_Pattern_body)

lemma ShowStmt_Table_body:
  "\<forall>h s. ShowStmt_Table acc v a h s = Some (Inr res) \<longrightarrow> body v (calls acc) a h s res"
  unfolding ShowStmt_Table_def
  by (intro allI impI, erule optional_body[where R = "ShowStmt_Column acc v a" and acc = acc])
     (rule ShowStmt_Column_body)

lemma VariableAssignment_Accept_frame:
  assumes "VariableAssignment_Accept acc v n h s = Some (Inr res)"
  shows "frame v (calls acc) n h s res"
proof (cases "Enter v n h s")
  case (Pair b s1)
  show ?thesis
  proof (cases b)
    case False
    with Pair assms(1) show ?thesis
      by (auto simp: VariableAssignment_Accept_def returned_def intro: frame_refused)
  next
    case True
    with Pair assms(1) obtain a where a: "n = Some a"
      and c: "(case get_Value h a of None \<Rightarrow> Some (Inl BadHeap)
               | Some val \<Rightarrow> child (acc val h s1) a is_ExprNode set_Value (return_Leave v (Some a)))
              = Some (Inr res)"
      by (cases n) (auto simp: VariableAssignment_Accept_def)
    have "body v (calls acc) a h s1 res"
      by (rule required_body[where acc = acc, OF c Leave_bodies])
    with Pair True a show ?thesis by (auto intro: frame_entered)
  qed
qed

lemma methods_frame:
  "ExplainStmt_Accept acc v a h s = Some (Inr res) \<Longrightarrow> frame v (calls acc) (Some a) h s res"
  "PrepareStmt_Accept acc v a h s = Some (Inr res) \<Longrightarrow> frame v (calls acc) (Some a) h s res"
  "DeallocateStmt_Accept v a h s = Some (Inr res) \<Longrightarrow> frame v sub (Some a) h s res"
  "ExecuteStmt_Accept acc v a h s = Some (Inr res) \<Longrightarrow> frame v (calls acc) (Some a) h s res"
  "ShowStmt_Accept acc v a h s = Some (Inr res) \<Longrightarrow> frame v (calls acc) (Some a) h s res"
  "BeginStmt_Accept v a h s = Some (Inr res) \<Longrightarrow> frame v sub (Some a) h s res"
  "CommitStmt_Accept v a h s = Some (Inr res) \<Longrightarrow> frame v sub (Some a) h s res"
  "RollbackStmt_Accept v a h s = Some (Inr res) \<Longrightarrow> frame v sub (Some a) h s res"
  "UseStmt_Accept v a h s = Some (Inr res) \<Longrightarrow> frame v sub (Some a) h s res"
  "SetStmt_Accept acc v a h s = Some (Inr res) \<Longrightarrow>
     frame v (calls (VariableAssignment_Accept acc v)) (Some a) h s res"
  "Foreign_Accept acc v a h s = Some (Inr res) \<Longrightarrow> frame v (calls acc) (Some a) h s res"
proof -
  show "ExplainStmt_Accept acc v a h s = Some (Inr res) \<Longrightarrow> frame v (calls acc) (Some a) h s res"
    unfolding ExplainStmt_Accept_def
    by (erule entered_frame, intro allI impI)
       (erule required_body[where acc = acc, OF _ Leave_bodies])
  show "PrepareStmt_Accept acc v a h s = Some (Inr res) \<Longrightarrow> frame v (calls acc) (Some a) h s res"
    unfolding PrepareStmt_Accept_def
    by (erule entered_frame, intro allI impI)
       (erule required_body[where acc = acc, OF _ Leave_bodies])
  show "DeallocateStmt_Accept v a h s = Some (Inr res) \<Longrightarrow> frame v sub (Some a) h s res"
    unfolding DeallocateStmt_Accept_def by (erule entered_frame) (simp add: return_Leave_body)
  show "BeginStmt_Accept v a h s = Some (Inr res) \<Longrightarrow> frame v sub (Some a) h s res"
    unfolding BeginStmt_Accept_def by (erule entered_frame) (simp add: return_Leave_body)
  show "CommitStmt_Accept v a h s = Some (Inr res) \<Longrightarrow> frame v sub (Some a) h s res"
    unfolding CommitStmt_Accept_def by (erule entered_frame) (simp add: return_Leave_body)
  show "RollbackStmt_Accept v a h s = Some (Inr res) \<Longrightarrow> frame v sub (Some a) h s res"
    unfolding RollbackStmt_Accept_def by (erule entered_frame) (simp add: return_Leave_body)
  show "UseStmt_Accept v a h s = Some (Inr res) \<Longrightarrow> frame v sub (Some a) h s res"
    unfolding UseStmt_Accept_def by (erule entered_frame) (simp add: return_Leave_body)
  show "ExecuteStmt_Accept acc v a h s = Some (Inr res) \<Longrightarrow> frame v (calls acc) (Some a) h s res"
    unfolding ExecuteStmt_Accept_def
    by (erule entered_frame, intro allI impI) (erule sequence_body)
  show "Foreign_Accept acc v a h s = Some (Inr res) \<Longrightarrow> frame v (calls acc) (Some a) h s res"
    unfolding Foreign_Accept_def
    by (erule entered_frame, intro allI impI) (erule sequence_body)
  show "SetStmt_Accept acc v a h s = Some (Inr res) \<Longrightarrow>
     frame v (calls (VariableAssignment_Accept acc v)) (Some a) h s res"
    unfolding SetStmt_Accept_def
    by (erule entered_frame, intro allI impI) (erule sequence_body)
  show "ShowStmt_Accept acc v a h s = Some (Inr res) \<Longrightarrow> frame v (calls acc) (Some a) h s res"
    unfolding ShowStmt_Accept_def
    by (erule entered_frame) (simp add: ShowStmt_Table_body)
qed

lemma Accept_Suc:
  "lookup h a = Some (ExplainStmt x) \<Longrightarrow>
     Accept (Suc k) v (Some a) h s = ExplainStmt_Accept (Accept k v) v a h s"
  "lookup h a = Some (PrepareStmt p nm d x) \<Longrightarrow>
     Accept (Suc k) v (Some a) h s = PrepareStmt_Accept (Accept k v) v a h s"
  "lookup h a = Some (DeallocateStmt nm d) \<Longrightarrow>
     Accept (Suc k) v (Some a) h s = DeallocateStmt_Accept v a h s"
  "lookup h a = Some (ExecuteStmt nm d xs) \<Longrightarrow>
     Accept (Suc k) v (Some a) h s = ExecuteStmt_Accept (Accept k v) v a h s"
  "lookup h a = Some (ShowStmt tg db tb cl fl fu gs pt wh) \<Longrightarrow>
     Accept (Suc k) v (Some a) h s = ShowStmt_Accept (Accept k v) v a h s"
  "lookup h a = Some BeginStmt \<Longrightarrow>
     Accept (Suc k) v (Some a) h s = BeginStmt_Accept v a h s"
  "lookup h a = Some CommitStmt \<Longrightarrow>
     Accept (Suc k) v (Some a) h s = CommitStmt_Accept v a h s"
  "lookup h a = Some RollbackStmt \<Longrightarrow>
     Accept (Suc k) v (Some a) h s = RollbackStmt_Accept v a h s"
  "lookup h a = Some (UseStmt db) \<Longrightarrow>
     Accept (Suc k) v (Some a) h s = UseStmt_Accept v a h s"
  "lookup h a = Some (VariableAssignment nm x g sy) \<Longrightarrow>
     Accept (Suc k) v (Some a) h s = VariableAssignment_Accept (Accept k v) v (Some a) h s"
  "lookup h a = Some (SetStmt xs) \<Longrightarrow>
     Accept (Suc k) v (Some a) h s = SetStmt_Accept (Accept k v) v a h s"
  "lookup h a = Some (Foreign kd py xs) \<Longrightarrow>
     Accept (Suc k) v (Some a) h s = Foreign_Accept (Accept k v) v a h s"
  by simp_all

lemma Accept_frame:
  assumes "Accept (Suc k) v n h s = Some (Inr res)"
  shows "frame v (child_calls k v) n h s res"
proof -
  from assms obtain a where a: "n = Some a" by (cases n) auto
  with assms obtain ob where ob: "lookup h a = Some ob" by (cases "lookup h a") auto
  have 1: "\<forall>c h s r. calls (Accept k v) c h s r \<longrightarrow> child_calls k v c h s r"
    by (simp add: calls_def child_calls_def)
  have 2: "\<forall>c h s r. calls (VariableAssignment_Accept (Accept k v) v) c h s r
      \<longrightarrow> child_calls k v c h s r"
    by (simp add: calls_def child_calls_def)
  note m = methods_frame(1,2,4,5,11)[THEN frame_mono, OF _ 1]
    methods_frame(10)[THEN frame_mono, OF _ 2] methods_frame(3,6,7,8,9)
    VariableAssignment_Accept_frame[THEN frame_mono, OF _ 1]
  from assms show ?thesis
    unfolding a using ob by (cases ob) (auto simp only: Accept_Suc intro: m)
qed


lemma quiet_simps [simp]:
  "quiet []" "quiet (e # T) = (\<not> failing e \<and> quiet T)" "quiet (T @ U) = (quiet T \<and> quiet U)"
  by (simp_all add: quiet_def)

lemma aborted_append: "quiet T \<Longrightarrow> aborted M \<Longrightarrow> aborted (T @ M)"
  by (auto simp: aborted_def butlast_append)

lemma aborted_Cons: "\<not> failing e \<Longrightarrow> aborted M \<Longrightarrow> aborted (e # M)"
  using aborted_append[of "[e]" M] by simp

lemma quiet_snoc: "M \<noteq> [] \<Longrightarrow> quiet M = (quiet (butlast M) \<and> \<not> failing (last M))"
proof -
  assume "M \<noteq> []"
  then have "quiet M = quiet (butlast M @ [last M])" by simp
  then show ?thesis by (simp del: append_butlast_last_id)
qed

lemma aborted_not_quiet: "aborted T \<Longrightarrow> \<not> quiet T"
  by (auto simp: aborted_def quiet_snoc)

lemma protocol_outcome: "protocol n r ok T \<Longrightarrow> (if ok then quiet T else aborted T)"
proof (cases T)
  case Nil
  moreover assume "protocol n r ok T"
  ultimately show ?thesis by (simp add: protocol_def)
next
  case (Cons e M)
  assume p: "protocol n r ok T"
  show ?thesis
  proof (cases "M = []")
    case True
    with p Cons show ?thesis by (simp add: protocol_def aborted_def)
  next
    case False
    with p Cons have e: "e = EvEnter n True"
      and d: "last M = EvLeave n r ok \<and> quiet (butlast M) \<or> aborted M \<and> r = n \<and> \<not> ok"
      by (simp_all add: protocol_def)
    from d show ?thesis
    proof
      assume "last M = EvLeave n r ok \<and> quiet (butlast M)"
      with False e Cons show ?thesis by (simp add: quiet_snoc aborted_def)
    next
      assume "aborted M \<and> r = n \<and> \<not> ok"
      with e Cons show ?thesis by (simp add: aborted_Cons)
    qed
  qed
qed

lemma Enter_recording:
  "Enter (recording v) n h (s, log) =
     (fst (Enter v n h s), (snd (Enter v n h s), log @ [EvEnter n (fst (Enter v n h s))]))"
  by (simp add: recording_def split: prod.splits)

lemma Leave_recording:
  "Leave (recording v) n h (s, log) =
     (fst (Leave v n h s), fst (snd (Leave v n h s)),
      (snd (snd (Leave v n h s)),
       log @ [EvLeave n (fst (fst (Leave v n h s))) (snd (fst (Leave v n h s)))]))"
  by (simp add: recording_def split: prod.splits)

lemma body_log:
  assumes "body (recording v) sub a h st res" and "logs_outcome sub"
  shows "\<exists>M. told res = snd st @ M \<and> M \<noteq> [] \<and>
           (last M = EvLeave (Some a) (fst (fst res)) (snd (fst res)) \<and> quiet (butlast M) \<or>
            aborted M \<and> fst res = (Some a, False))"
  using assms
proof (induction rule: body.induct)
  case (body_Leave h st r new st')
  obtain s log where st: "st = (s, log)" by (cases st)
  from body_Leave.hyps have "told (r, h @ new, st') = log @ [EvLeave (Some a) (fst r) (snd r)]"
    "True"
    by (auto simp: st Leave_recording told_def)
  then show ?case by (auto simp: st)
next
  case (body_abort c h st x h2 st2)
  then obtain T where "told ((x, False), h2, st2) = snd st @ T" "aborted T"
    unfolding logs_outcome_def by fastforce
  then show ?case by (auto simp: told_def aborted_def)
next
  case (body_child c h st x h2 st2 ob res)
  then obtain T where T: "told ((x, True), h2, st2) = snd st @ T" "quiet T"
    unfolding logs_outcome_def by fastforce
  from body_child.IH[OF body_child.prems] obtain M where
    M: "told res = snd st2 @ M" "M \<noteq> []"
      "last M = EvLeave (Some a) (fst (fst res)) (snd (fst res)) \<and> quiet (butlast M) \<or>
       aborted M \<and> fst res = (Some a, False)"
    by blast
  have "told res = snd st @ (T @ M)" using T(1) M(1) by (simp add: told_def)
  moreover have "T @ M \<noteq> []" using M(2) by simp
  moreover have "last (T @ M) = EvLeave (Some a) (fst (fst res)) (snd (fst res)) \<and>
      quiet (butlast (T @ M)) \<or> aborted (T @ M) \<and> fst res = (Some a, False)"
    using M(2,3) T(2) by (auto simp: butlast_append aborted_append)
  ultimately show ?case by blast
qed

lemma frame_log:
  assumes "frame (recording v) sub n h st res" and "logs_outcome sub"
  shows "\<exists>T. told res = snd st @ T \<and> protocol n (fst (fst res)) (snd (fst res)) T"
  using assms(1)
proof (cases rule: frame.cases)
  case (frame_refused st1)
  obtain s log where st: "st = (s, log)" by (cases st)
  from frame_refused have "told res = log @ [EvEnter n False]"
    by (auto simp: st Enter_recording told_def)
  with frame_refused show ?thesis by (simp add: st protocol_def)
next
  case (frame_entered a st1)
  obtain s log where st: "st = (s, log)" by (cases st)
  from frame_entered have st1: "snd st1 = log @ [EvEnter n True]"
    by (auto simp: st Enter_recording)
  from body_log[OF frame_entered(3) assms(2)] obtain M where
    M: "told res = snd st1 @ M" "M \<noteq> []"
      "last M = EvLeave (Some a) (fst (fst res)) (snd (fst res)) \<and> quiet (butlast M) \<or>
       aborted M \<and> fst res = (Some a, False)"
    by blast
  have "told res = snd st @ (EvEnter n True # M)" using M(1) st1 by (simp add: st)
  moreover have "protocol n (fst (fst res)) (snd (fst res)) (EvEnter n True # M)"
    using M(2,3) frame_entered(1) by (auto simp: protocol_def)
  ultimately show ?thesis by blast
qed

lemma Accept_log:
  "Accept k (recording v) n h st = Some (Inr res) \<Longrightarrow>
     \<exists>T. told res = snd st @ T \<and> protocol n (fst (fst res)) (snd (fst res)) T"
proof (induction k arbitrary: n h st res)
  case 0
  then show ?case by simp
next
  case (Suc k)
  have acc: "logs_outcome (calls (Accept k (recording v)))"
    unfolding logs_outcome_def calls_def using Suc.IH protocol_outcome by blast
  have "logs_outcome (calls (VariableAssignment_Accept (Accept k (recording v)) (recording v)))"
    unfolding logs_outcome_def calls_def
    using frame_log[OF VariableAssignment_Accept_frame acc] protocol_outcome by blast
  with acc have "logs_outcome (child_calls k (recording v))"
    unfolding logs_outcome_def calls_def child_calls_def by blast
  with Accept_frame[OF Suc.prems] show ?case by (rule frame_log)
qed

lemma child_calls_log:
  assumes "child_calls k (recording v) c h st res"
  shows "\<exists>T. told res = snd st @ T"
proof -
  have acc: "logs_outcome (calls (Accept k (recording v)))"
    unfolding logs_outcome_def calls_def using Accept_log protocol_outcome by blast
  have "logs_outcome (calls (VariableAssignment_Accept (Accept k (recording v)) (recording v)))"
    unfolding logs_outcome_def calls_def
    using frame_log[OF VariableAssignment_Accept_frame acc] protocol_outcome by blast
  with acc have "logs_outcome (child_calls k (recording v))"
    unfolding logs_outcome_def calls_def child_calls_def by blast
  with assms show ?thesis unfolding logs_outcome_def by blast
qed

lemma body_children:
  assumes "body (recording v) sub a h st res" and "sub = child_calls k (recording v)"
  shows "(\<exists>Ts. children k v a h st Ts False (fst (snd res)) (snd (snd res)) \<and>
            fst res = (Some a, False) \<and> told res = snd st @ concat Ts) \<or>
         (\<exists>Ts h2 s2 new. children k v a h st Ts True h2 (s2, snd st @ concat Ts) \<and>
            Leave v (Some a) h2 s2 = (fst res, new, fst (snd (snd res))) \<and>
            fst (snd res) = h2 @ new \<and>
            told res = snd st @ concat Ts @ [EvLeave (Some a) (fst (fst res)) (snd (fst res))])"
  using assms
proof (induction rule: body.induct)
  case (body_Leave h st r new st')
  obtain s lg where st: "st = (s, lg)" by (cases st)
  have "children k v a h st [] True h (s, snd st @ concat [])"
    by (simp add: st children_done)
  moreover from body_Leave.hyps have "Leave v (Some a) h s = (fst (r, h @ new, st'), new, fst (snd (snd (r, h @ new, st'))))"
    by (auto simp: st Leave_recording)
  moreover from body_Leave.hyps have "told (r, h @ new, st') =
      snd st @ concat [] @ [EvLeave (Some a) (fst (fst (r, h @ new, st'))) (snd (fst (r, h @ new, st')))]"
    by (auto simp: st Leave_recording told_def)
  ultimately show ?case by (intro disjI2 exI[of _ "[]"] exI[of _ h] exI[of _ s] exI[of _ new]) simp
next
  case (body_abort c h st x h2 st2)
  obtain s lg where st: "st = (s, lg)" by (cases st)
  obtain s2 lg2 where st2: "st2 = (s2, lg2)" by (cases st2)
  from body_abort have cc: "child_calls k (recording v) c h st ((x, False), h2, st2)" by simp
  from child_calls_log[OF cc] obtain T where T: "lg2 = lg @ T"
    by (auto simp: told_def st st2)
  from cc have "children k v a h (s, lg) [T] False h2 (s2, lg @ T)"
    unfolding st st2 T by (rule children_failed)
  then show ?case by (intro disjI1 exI[of _ "[T]"]) (simp add: st st2 T told_def)
next
  case (body_child c h st x h2 st2 ob res)
  obtain s lg where st: "st = (s, lg)" by (cases st)
  obtain s2 lg2 where st2: "st2 = (s2, lg2)" by (cases st2)
  from body_child have cc: "child_calls k (recording v) c h st ((x, True), h2, st2)" by simp
  from child_calls_log[OF cc] obtain T where T: "lg2 = lg @ T"
    by (auto simp: told_def st st2)
  note cc' = cc[unfolded st st2 T]
  from body_child.IH[OF body_child.prems] show ?case
  proof (elim disjE exE conjE)
    fix Ts
    assume c: "children k v a (h2[a := ob]) st2 Ts False (fst (snd res)) (snd (snd res))"
      and r: "fst res = (Some a, False)" and t: "told res = snd st2 @ concat Ts"
    from children_next[OF cc' c[unfolded st2 T]]
    have "children k v a h st (T # Ts) False (fst (snd res)) (snd (snd res))"
      by (simp add: st)
    moreover from t have "told res = snd st @ concat (T # Ts)" by (simp add: st st2 T)
    ultimately show ?thesis using r by blast
  next
    fix Ts h3 s3 new
    assume c: "children k v a (h2[a := ob]) st2 Ts True h3 (s3, snd st2 @ concat Ts)"
      and l: "Leave v (Some a) h3 s3 = (fst res, new, fst (snd (snd res)))"
      and h: "fst (snd res) = h3 @ new"
      and t: "told res = snd st2 @ concat Ts @
        [EvLeave (Some a) (fst (fst res)) (snd (fst res))]"
    from children_next[OF cc' c[unfolded st2 T]]
    have "children k v a h st (T # Ts) True h3 (s3, snd st @ concat (T # Ts))"
      by (simp add: st st2 T)
    moreover from t have "told res = snd st @ concat (T # Ts) @
        [EvLeave (Some a) (fst (fst res)) (snd (fst res))]" by (simp add: st st2 T)
    ultimately show ?thesis using l h by blast
  qed
qed

section \<open>What a frame returns\<close>

lemma body_result:
  assumes "body v sub a h s res"
  shows "(\<exists>h1 s1 new. Leave v (Some a) h1 s1 = (fst res, new, snd (snd res)) \<and>
            fst (snd res) = h1 @ new) \<or>
         (fst res = (Some a, False) \<and> (\<exists>c h1 s1 x. sub c h1 s1 ((x, False), snd res)))"
  using assms
proof (induction rule: body.induct)
  case (body_Leave h s r new s')
  then have "Leave v (Some a) h s = (fst (r, h @ new, s'), new, snd (snd (r, h @ new, s'))) \<and>
      fst (snd (r, h @ new, s')) = h @ new"
    by simp
  then show ?case by blast
next
  case (body_abort c h s x h2 s2)
  then have "fst ((Some a, False), h2, s2) = (Some a, False) \<and>
      sub c h s ((x, False), snd ((Some a, False), h2, s2))"
    by simp
  then show ?case by blast
next
  case (body_child c h s x h2 s2 ob res)
  then show ?case by simp
qed

lemma frame_result:
  assumes "frame v sub (Some a) h s ((r, ok), h', s')"
  shows "(Enter v (Some a) h s = (False, s') \<and> h' = h \<and> r = Some a \<and> \<not> ok) \<or>
         (\<exists>h1 s1 new. Leave v (Some a) h1 s1 = ((r, ok), new, s') \<and> h' = h1 @ new) \<or>
         (r = Some a \<and> \<not> ok \<and> (\<exists>c h1 s1 x. sub c h1 s1 ((x, False), h', s')))"
  using assms
proof (cases rule: frame.cases)
  case frame_refused
  then show ?thesis by simp
next
  case (frame_entered s1)
  from body_result[OF frame_entered(2)] show ?thesis by auto
qed

lemma quiet_split: "quiet (T1 @ e # T2) \<Longrightarrow> \<not> failing e"
  by simp


section \<open>A failing child\<close>




section \<open>A refusing Enter\<close>

lemmas Accept_defs =
  ExplainStmt_Accept_def PrepareStmt_Accept_def DeallocateStmt_Accept_def
  ExecuteStmt_Accept_def ShowStmt_Accept_def BeginStmt_Accept_def CommitStmt_Accept_def
  RollbackStmt_Accept_def UseStmt_Accept_def VariableAssignment_Accept_def SetStmt_Accept_def
  Foreign_Accept_def

lemma Accept_Enter_False:
  assumes "Enter v (Some a) h s = (False, s1)" and "a < length h"
  shows "Accept (Suc k) v (Some a) h s = Some (Inr ((Some a, False), h, s1))"
  using assms by (cases "h ! a") (simp_all add: lookup_def Accept_defs returned_def)

section \<open>Logs of whole traversals\<close>

lemma Accept_protocol:
  assumes "Accept k (recording v) n h (s, log) = Some (Inr ((r, ok), h', (s', log')))"
  shows "\<exists>T. log' = log @ T \<and> protocol n r ok T"
  using Accept_log[OF assms] by (simp add: told_def)

lemma protocol_cases:
  assumes "protocol n r ok T"
  shows "(r = n \<and> \<not> ok \<and> aborted T) \<or>
         (\<exists>M. T = EvEnter n True # M @ [EvLeave n r ok] \<and> quiet M)"
proof (cases T)
  case Nil
  with assms show ?thesis by (simp add: protocol_def)
next
  case (Cons e M)
  show ?thesis
  proof (cases "M = []")
    case True
    with assms Cons show ?thesis by (simp add: protocol_def aborted_def)
  next
    case False
    with assms Cons have e: "e = EvEnter n True"
      and d: "last M = EvLeave n r ok \<and> quiet (butlast M) \<or> aborted M \<and> r = n \<and> \<not> ok"
      by (simp_all add: protocol_def)
    from d show ?thesis
    proof
      assume l: "last M = EvLeave n r ok \<and> quiet (butlast M)"
      from False have "M = butlast M @ [last M]" by simp
      with l have "T = EvEnter n True # butlast M @ [EvLeave n r ok]" using Cons e by simp
      with l show ?thesis by blast
    next
      assume "aborted M \<and> r = n \<and> \<not> ok"
      with e Cons show ?thesis by (simp add: aborted_Cons)
    qed
  qed
qed

lemma childless_Accept:
  assumes "lookup h a = Some ob" and "childless ob"
  shows "Accept (Suc k) v (Some a) h s =
     (case Enter v (Some a) h s of
        (False, s1) \<Rightarrow> Some (Inr ((Some a, False), h, s1))
      | (True, s1) \<Rightarrow>
          (case Leave v (Some a) h s1 of (r, new, s2) \<Rightarrow> Some (Inr (r, h @ new, s2))))"
  using assms
  by (cases ob)
     (simp_all add: Accept_defs returned_def return_Leave_def split: prod.splits bool.splits)

section \<open>Traversals that change nothing\<close>

lemma replay_simps [simp]:
  "replay v h [] s = s"
  "replay v h (e # T) s = replay v h T (call_of v h e s)"
  "replay v h (T @ U) s = replay v h U (replay v h T s)"
  by (simp_all add: replay_def)

lemma passive_entered:
  assumes "passive_visitor v"
  shows "(case Enter v n h s of (False, s1) \<Rightarrow> A s1 | (True, s1) \<Rightarrow> B s1) =
         B (snd (Enter v n h s))"
proof -
  obtain b s' where e: "Enter v n h s = (b, s')" by (cases "Enter v n h s")
  with assms have "b" unfolding passive_visitor_def by (metis fst_conv)
  with e show ?thesis by simp
qed

lemma passive_Leave:
  assumes "passive_visitor v"
  shows "return_Leave v n h s = Some (Inr ((n, True), h, snd (snd (Leave v n h s))))"
proof -
  obtain r new s' where l: "Leave v n h s = (r, new, s')" by (cases "Leave v n h s")
  with assms have "r = (n, True)" "new = []" unfolding passive_visitor_def
    by (metis fst_conv, metis fst_conv snd_conv)
  with l show ?thesis by (simp add: return_Leave_def returned_def)
qed

lemma assign_same:
  "lookup h a = Some ob \<Longrightarrow> f ob = ob \<Longrightarrow> assign f a h = h"
  by (auto simp: assign_def lookup_def split: if_splits)

lemma child_passive:
  assumes "r0 = Some (Inr ((c, True), h, s1))" and "cast h c" and "assign (put c) a h = h"
  shows "child r0 a cast put rest = rest h s1"
  using assms by (simp add: child_simps)


lemma range_from_passive:
  assumes p: "passive_visitor v" and g: "get h a = Some xs" and n: "n = length xs"
    and calls: "\<forall>i<n. \<forall>s. call (xs ! i) h s =
        Some (Inr ((xs ! i, True), h, replay v h (T (xs ! i)) s))"
    and casts: "\<forall>i<n. cast h (xs ! i)"
    and puts: "\<forall>i<n. assign (put i (xs ! i)) a h = h"
  shows "i \<le> n \<Longrightarrow> range_from call get cast put v a n i h s =
     Some (Inr ((Some a, True), h,
       replay v h (concat (map T (drop i xs)) @ [EvLeave (Some a) (Some a) True]) s))"
proof (induction "n - i" arbitrary: i s)
  case 0
  then have i: "i = n" by simp
  have "range_from call get cast put v a n n h s = return_Leave v (Some a) h s"
    by (simp add: range_from.simps[of call get cast put v a n n h s])
  also have "\<dots> = Some (Inr ((Some a, True), h, replay v h [EvLeave (Some a) (Some a) True] s))"
    by (simp add: passive_Leave[OF p])
  finally show ?case using i n by simp
next
  case (Suc m)
  then have i: "i < n" by simp
  then have il: "i < length xs" using n by simp
  have d: "drop i xs = xs ! i # drop (Suc i) xs"
    using il by (rule Cons_nth_drop_Suc[symmetric])
  have c: "call (xs ! i) h s = Some (Inr ((xs ! i, True), h, replay v h (T (xs ! i)) s))"
    using calls i by blast
  have ca: "cast h (xs ! i)" using casts i by blast
  have pu: "assign (put i (xs ! i)) a h = h" using puts i by blast
  have "range_from call get cast put v a n i h s =
      child (call (xs ! i) h s) a cast (put i) (range_from call get cast put v a n (Suc i))"
    using i il g by (simp add: range_from.simps[of call get cast put v a n i h s])
  also have "\<dots> = range_from call get cast put v a n (Suc i) h (replay v h (T (xs ! i)) s)"
    by (rule child_passive[where cast = cast and put = "put i" and c = "xs ! i" and h = h,
          OF c ca pu])
  also have "\<dots> = Some (Inr ((Some a, True), h,
       replay v h (concat (map T (drop (Suc i) xs)) @ [EvLeave (Some a) (Some a) True])
         (replay v h (T (xs ! i)) s)))"
  proof (rule Suc.hyps(1))
    show "m = n - Suc i" using Suc.hyps(2) by simp
    show "Suc i \<le> n" using i by simp
  qed
  also have "\<dots> = Some (Inr ((Some a, True), h,
       replay v h (concat (map T (drop i xs)) @ [EvLeave (Some a) (Some a) True]) s))"
    unfolding d by simp
  finally show ?case .
qed


lemma visit_order_None [simp]: "visit_order j h None = []"
  by (cases j) simp_all

lemma get_simps:
  "lookup h a = Some (ExplainStmt x) \<Longrightarrow> get_Stmt h a = Some x"
  "lookup h a = Some (PrepareStmt p nm d x) \<Longrightarrow> get_SQLStmt h a = Some x"
  "lookup h a = Some (ExecuteStmt nm d xs) \<Longrightarrow> get_UsingVars h a = Some xs"
  "lookup h a = Some (ShowStmt tg db tb cl fl fu gs pt wh) \<Longrightarrow> get_Table h a = Some tb"
  "lookup h a = Some (ShowStmt tg db tb cl fl fu gs pt wh) \<Longrightarrow> get_Column h a = Some cl"
  "lookup h a = Some (ShowStmt tg db tb cl fl fu gs pt wh) \<Longrightarrow> get_Pattern h a = Some pt"
  "lookup h a = Some (ShowStmt tg db tb cl fl fu gs pt wh) \<Longrightarrow> get_Where h a = Some wh"
  "lookup h a = Some (VariableAssignment nm x g sy) \<Longrightarrow> get_Value h a = Some x"
  "lookup h a = Some (SetStmt xs) \<Longrightarrow> get_Variables h a = Some xs"
  "lookup h a = Some (Foreign kd py xs) \<Longrightarrow> get_Children h a = Some xs"
  by (simp_all add: get_Stmt_def get_SQLStmt_def get_UsingVars_def get_Table_def get_Column_def
      get_Pattern_def get_Where_def get_Value_def get_Variables_def get_Children_def)

lemma child_then_Leave:
  assumes p: "passive_visitor v"
    and c: "\<forall>s. acc x h s = Some (Inr ((x, True), h, replay v h T s))"
    and ca: "cast h x" and pu: "assign (put x) a h = h"
  shows "child (acc x h s1) a cast put (return_Leave v (Some a)) =
         Some (Inr ((Some a, True), h, replay v h (T @ [EvLeave (Some a) (Some a) True]) s1))"
proof -
  have c1: "acc x h s1 = Some (Inr ((x, True), h, replay v h T s1))" using c by blast
  have "child (acc x h s1) a cast put (return_Leave v (Some a)) =
      return_Leave v (Some a) h (replay v h T s1)"
    by (rule child_passive[where cast = cast and put = put and c = x and h = h, OF c1 ca pu])
  then show ?thesis by (simp add: passive_Leave[OF p])
qed

lemma optional_step:
  assumes f: "f = None \<or> (cast h f \<and> (\<forall>s. acc f h s = Some (Inr ((f, True), h, replay v h (T f) s))))"
    and pu: "assign (put f) a h = h"
    and n: "T None = []"
    and r: "\<forall>s. R h s = Some (Inr ((Some a, True), h, replay v h U s))"
  shows "(case f of None \<Rightarrow> R h s | Some c \<Rightarrow> child (acc (Some c) h s) a cast put R) =
         Some (Inr ((Some a, True), h, replay v h (T f @ U) s))"
proof (cases f)
  case None
  with n r show ?thesis by simp
next
  case (Some c)
  with f have ca: "cast h f"
    and c1: "acc f h s = Some (Inr ((f, True), h, replay v h (T f) s))"
    by auto
  have "child (acc f h s) a cast put R = R h (replay v h (T f) s)"
    by (rule child_passive[where cast = cast and put = put and c = f and h = h, OF c1 ca pu])
  with Some r show ?thesis by simp
qed

lemma ShowStmt_passive:
  assumes p: "passive_visitor v"
    and ob: "lookup h a = Some (ShowStmt tg db tb cl fl fu gs pt wh)"
    and n: "T None = []"
    and ftb: "tb = None \<or> (is_TableRef h tb \<and>
        (\<forall>s. acc tb h s = Some (Inr ((tb, True), h, replay v h (T tb) s))))"
    and fcl: "cl = None \<or> (is_ColumnRefExpr h cl \<and>
        (\<forall>s. acc cl h s = Some (Inr ((cl, True), h, replay v h (T cl) s))))"
    and fpt: "pt = None \<or> (is_PatternLikeExpr h pt \<and>
        (\<forall>s. acc pt h s = Some (Inr ((pt, True), h, replay v h (T pt) s))))"
    and fwh: "wh = None \<or> (is_ExprNode h wh \<and>
        (\<forall>s. acc wh h s = Some (Inr ((wh, True), h, replay v h (T wh) s))))"
  shows "ShowStmt_Accept acc v a h s =
     Some (Inr ((Some a, True), h,
       replay v h (EvEnter (Some a) True # T tb @ T cl @ T pt @ T wh @
         [EvLeave (Some a) (Some a) True]) s))"
proof -
  have l: "\<forall>s. return_Leave v (Some a) h s =
      Some (Inr ((Some a, True), h, replay v h [EvLeave (Some a) (Some a) True] s))"
    by (simp add: passive_Leave[OF p])
  have w: "\<forall>s. ShowStmt_Where acc v a h s =
      Some (Inr ((Some a, True), h, replay v h (T wh @ [EvLeave (Some a) (Some a) True]) s))"
  proof
    fix s
    have pu: "assign (set_Where wh) a h = h" by (rule assign_same[OF ob]) simp
    show "ShowStmt_Where acc v a h s =
        Some (Inr ((Some a, True), h, replay v h (T wh @ [EvLeave (Some a) (Some a) True]) s))"
      unfolding ShowStmt_Where_def get_simps(7)[OF ob] option.case
      by (rule optional_step[where T = T and acc = acc and h = h and v = v and f = wh
            and R = "return_Leave v (Some a)" and put = set_Where and cast = is_ExprNode and a = a, OF fwh pu n l])
  qed
  have pa: "\<forall>s. ShowStmt_Pattern acc v a h s =
      Some (Inr ((Some a, True), h,
        replay v h (T pt @ T wh @ [EvLeave (Some a) (Some a) True]) s))"
  proof
    fix s
    have pu: "assign (set_Pattern pt) a h = h" by (rule assign_same[OF ob]) simp
    show "ShowStmt_Pattern acc v a h s =
        Some (Inr ((Some a, True), h, replay v h (T pt @ T wh @ [EvLeave (Some a) (Some a) True]) s))"
      unfolding ShowStmt_Pattern_def get_simps(6)[OF ob] option.case
      by (rule optional_step[where T = T and acc = acc and h = h and v = v and f = pt
            and R = "ShowStmt_Where acc v a" and put = set_Pattern and cast = is_PatternLikeExpr and a = a, OF fpt pu n w])
  qed
  have co: "\<forall>s. ShowStmt_Column acc v a h s =
      Some (Inr ((Some a, True), h,
        replay v h (T cl @ T pt @ T wh @ [EvLeave (Some a) (Some a) True]) s))"
  proof
    fix s
    have pu: "assign (set_Column cl) a h = h" by (rule assign_same[OF ob]) simp
    show "ShowStmt_Column acc v a h s =
        Some (Inr ((Some a, True), h, replay v h (T cl @ T pt @ T wh @ [EvLeave (Some a) (Some a) True]) s))"
      unfolding ShowStmt_Column_def get_simps(5)[OF ob] option.case
      by (rule optional_step[where T = T and acc = acc and h = h and v = v and f = cl
            and R = "ShowStmt_Pattern acc v a" and put = set_Column and cast = is_ColumnRefExpr and a = a, OF fcl pu n pa])
  qed
  have ta: "\<forall>s. ShowStmt_Table acc v a h s =
      Some (Inr ((Some a, True), h,
        replay v h (T tb @ T cl @ T pt @ T wh @ [EvLeave (Some a) (Some a) True]) s))"
  proof
    fix s
    have pu: "assign (set_Table tb) a h = h" by (rule assign_same[OF ob]) simp
    show "ShowStmt_Table acc v a h s =
        Some (Inr ((Some a, True), h, replay v h (T tb @ T cl @ T pt @ T wh @ [EvLeave (Some a) (Some a) True]) s))"
      unfolding ShowStmt_Table_def get_simps(4)[OF ob] option.case
      by (rule optional_step[where T = T and acc = acc and h = h and v = v and f = tb
            and R = "ShowStmt_Column acc v a" and put = set_Table and cast = is_TableRef and a = a, OF ftb pu n co])
  qed
  show ?thesis
    by (simp add: ShowStmt_Accept_def passive_entered[OF p] ta)
qed


lemma VariableAssignment_passive:
  assumes p: "passive_visitor v"
    and ob: "lookup h b = Some (VariableAssignment nm x g sy)"
    and ca: "is_ExprNode h x"
    and c: "\<forall>s. acc x h s = Some (Inr ((x, True), h, replay v h T s))"
  shows "VariableAssignment_Accept acc v (Some b) h s =
     Some (Inr ((Some b, True), h,
       replay v h (EvEnter (Some b) True # T @ [EvLeave (Some b) (Some b) True]) s))"
proof -
  have pu: "assign (set_Value x) b h = h" by (rule assign_same[OF ob]) simp
  note cl = child_then_Leave[where cast = is_ExprNode and put = set_Value and acc = acc
      and x = x and h = h and a = b, OF p c ca pu]
  show ?thesis
    by (simp add: VariableAssignment_Accept_def passive_entered[OF p] get_simps(8)[OF ob] cl)
qed

lemma list_all_nth: "list_all P xs \<Longrightarrow> i < length xs \<Longrightarrow> P (xs ! i)"
  by (simp add: list_all_length)

lemma wf_filter_children:
  assumes "list_all P (filter (\<lambda>x. x \<noteq> None) [tb, cl, pt, wh])"
  shows "(tb = None \<or> P tb) \<and> (cl = None \<or> P cl) \<and> (pt = None \<or> P pt) \<and> (wh = None \<or> P wh)"
  using assms by (auto split: if_splits)

lemma concat_filter_None:
  assumes "T None = []"
  shows "concat (map T (filter (\<lambda>x. x \<noteq> None) xs)) = concat (map T xs)"
  using assms by (induction xs) auto

lemma passive_traversal:
  assumes p: "passive_visitor v"
  shows "well_formed j h n \<Longrightarrow> j \<le> k \<Longrightarrow>
     Accept k v n h s = Some (Inr ((n, True), h, replay v h (visit_order j h n) s))"
proof (induction j arbitrary: k n s rule: less_induct)
  case (less j)
  from less.prems(1) obtain j0 where j: "j = Suc j0" by (cases j) auto
  with less.prems(1) obtain a where n: "n = Some a" by (cases n) auto
  from less.prems(1) j n obtain ob where ob: "lookup h a = Some ob"
    and ty: "typed h ob" and kids: "list_all (well_formed j0 h) (declared_children ob)"
    by (cases "lookup h a") auto
  from less.prems(2) j obtain k0 where k: "k = Suc k0" and jk: "j0 \<le> k0" by (cases k) auto
  let ?T = "visit_order j0 h"
  let ?acc = "Accept k0 v"
  have acc: "\<forall>s. ?acc c h s = Some (Inr ((c, True), h, replay v h (?T c) s))"
    if "well_formed j0 h c" for c
    using less.IH[of j0 c k0] that j jk by simp
  have goal: "visit_order j h (Some a) =
      EvEnter (Some a) True # concat (map ?T (declared_children ob)) @
      [EvLeave (Some a) (Some a) True]"
    using j ob by simp
  have "Accept (Suc k0) v (Some a) h s =
      Some (Inr ((Some a, True), h,
        replay v h (EvEnter (Some a) True # concat (map ?T (declared_children ob)) @
          [EvLeave (Some a) (Some a) True]) s))"
  proof (cases ob)
    case (ExplainStmt x)
    have pu: "assign (set_Stmt x) a h = h"
      by (rule assign_same[OF ob]) (simp add: ExplainStmt)
    have w: "well_formed j0 h x" and ca: "is_DMLNode h x"
      using kids ty ExplainStmt by simp_all
    note cl = child_then_Leave[where cast = is_DMLNode and put = set_Stmt and acc = ?acc
        and x = x and h = h and a = a, OF p acc[OF w] ca pu]
    show ?thesis
      unfolding Accept_Suc(1)[OF ob[unfolded ExplainStmt]]
      by (simp add: ExplainStmt ExplainStmt_Accept_def passive_entered[OF p]
          get_simps(1)[OF ob[unfolded ExplainStmt]] cl)
  next
    case (PrepareStmt pm nm d x)
    have pu: "assign (set_SQLStmt x) a h = h"
      by (rule assign_same[OF ob]) (simp add: PrepareStmt)
    have w: "well_formed j0 h x" using kids PrepareStmt by simp
    have ca: "is_Node h x" by (simp add: is_Node_def)
    note cl = child_then_Leave[where cast = is_Node and put = set_SQLStmt and acc = ?acc
        and x = x and h = h and a = a, OF p acc[OF w] ca pu]
    show ?thesis
      unfolding Accept_Suc(2)[OF ob[unfolded PrepareStmt]]
      by (simp add: PrepareStmt PrepareStmt_Accept_def passive_entered[OF p]
          get_simps(2)[OF ob[unfolded PrepareStmt]] cl)
  next
    case (DeallocateStmt nm d)
    show ?thesis
      unfolding Accept_Suc(3)[OF ob[unfolded DeallocateStmt]]
      by (simp add: DeallocateStmt DeallocateStmt_Accept_def passive_entered[OF p]
          passive_Leave[OF p])
  next
    case (ExecuteStmt nm d xs)
    have g: "get_UsingVars h a = Some xs" by (rule get_simps(3)[OF ob[unfolded ExecuteStmt]])
    have calls: "\<forall>i<length xs. \<forall>s. ?acc (xs ! i) h s =
        Some (Inr ((xs ! i, True), h, replay v h (?T (xs ! i)) s))"
      using kids ExecuteStmt acc by (simp add: list_all_length)
    have casts: "\<forall>i<length xs. is_ExprNode h (xs ! i)"
      using ty ExecuteStmt by (simp add: list_all_length)
    have puts: "\<forall>i<length xs. assign (set_UsingVars i (xs ! i)) a h = h"
      by (intro allI impI assign_same[OF ob]) (simp add: ExecuteStmt)
    note r = range_from_passive[where T = ?T and call = ?acc and get = get_UsingVars
        and cast = is_ExprNode and put = set_UsingVars and i = 0,
        OF p g refl calls casts puts]
    show ?thesis
      unfolding Accept_Suc(4)[OF ob[unfolded ExecuteStmt]]
      by (simp add: ExecuteStmt ExecuteStmt_Accept_def passive_entered[OF p] g r)
  next
    case (ShowStmt tg db tb cl fl fu gs pt wh)
    note o = ob[unfolded ShowStmt]
    from kids ShowStmt have
      "list_all (well_formed j0 h) (filter (\<lambda>x. x \<noteq> None) [tb, cl, pt, wh])" by simp
    from wf_filter_children[OF this] have
      w: "tb = None \<or> well_formed j0 h tb" "cl = None \<or> well_formed j0 h cl"
         "pt = None \<or> well_formed j0 h pt" "wh = None \<or> well_formed j0 h wh"
      by simp_all
    from ty ShowStmt have
      t: "tb = None \<or> is_TableRef h tb" "cl = None \<or> is_ColumnRefExpr h cl"
         "pt = None \<or> is_PatternLikeExpr h pt" "wh = None \<or> is_ExprNode h wh"
      by simp_all
    have ftb: "tb = None \<or> (is_TableRef h tb \<and>
        (\<forall>s. ?acc tb h s = Some (Inr ((tb, True), h, replay v h (?T tb) s))))"
      using w(1) t(1) acc by blast
    have fcl: "cl = None \<or> (is_ColumnRefExpr h cl \<and>
        (\<forall>s. ?acc cl h s = Some (Inr ((cl, True), h, replay v h (?T cl) s))))"
      using w(2) t(2) acc by blast
    have fpt: "pt = None \<or> (is_PatternLikeExpr h pt \<and>
        (\<forall>s. ?acc pt h s = Some (Inr ((pt, True), h, replay v h (?T pt) s))))"
      using w(3) t(3) acc by blast
    have fwh: "wh = None \<or> (is_ExprNode h wh \<and>
        (\<forall>s. ?acc wh h s = Some (Inr ((wh, True), h, replay v h (?T wh) s))))"
      using w(4) t(4) acc by blast
    have c: "concat (map ?T (declared_children ob)) = ?T tb @ ?T cl @ ?T pt @ ?T wh"
      unfolding ShowStmt declared_children.simps
      by (subst concat_filter_None) simp_all
    show ?thesis
      unfolding Accept_Suc(5)[OF o] c
      using ShowStmt_passive[where T = ?T and acc = ?acc and s = s, OF p o _ ftb fcl fpt fwh]
      by simp
  next
    case BeginStmt
    show ?thesis
      unfolding Accept_Suc(6)[OF ob[unfolded BeginStmt]]
      by (simp add: BeginStmt BeginStmt_Accept_def passive_entered[OF p] passive_Leave[OF p])
  next
    case CommitStmt
    show ?thesis
      unfolding Accept_Suc(7)[OF ob[unfolded CommitStmt]]
      by (simp add: CommitStmt CommitStmt_Accept_def passive_entered[OF p] passive_Leave[OF p])
  next
    case RollbackStmt
    show ?thesis
      unfolding Accept_Suc(8)[OF ob[unfolded RollbackStmt]]
      by (simp add: RollbackStmt RollbackStmt_Accept_def passive_entered[OF p]
          passive_Leave[OF p])
  next
    case (UseStmt db)
    show ?thesis
      unfolding Accept_Suc(9)[OF ob[unfolded UseStmt]]
      by (simp add: UseStmt UseStmt_Accept_def passive_entered[OF p] passive_Leave[OF p])
  next
    case (VariableAssignment nm x g sy)
    note o = ob[unfolded VariableAssignment]
    have w: "well_formed j0 h x" and ca: "is_ExprNode h x"
      using kids ty VariableAssignment by simp_all
    show ?thesis
      unfolding Accept_Suc(10)[OF o]
      using VariableAssignment_passive[where acc = ?acc and T = "?T x" and s = s,
          OF p o ca acc[OF w]]
      by (simp add: VariableAssignment)
  next
    case (SetStmt xs)
    have g: "get_Variables h a = Some xs" by (rule get_simps(9)[OF ob[unfolded SetStmt]])
    have calls: "\<forall>i<length xs. \<forall>s. VariableAssignment_Accept ?acc v (xs ! i) h s =
        Some (Inr ((xs ! i, True), h, replay v h (?T (xs ! i)) s))"
    proof (intro allI impI)
      fix i s assume i: "i < length xs"
      have w: "well_formed j0 h (xs ! i)" using kids SetStmt i by (simp add: list_all_length)
      have va: "is_VariableAssignment h (xs ! i)"
        using ty SetStmt i by (simp add: list_all_length)
      from w obtain j1 where j0: "j0 = Suc j1" by (cases j0) auto
      from va obtain b nm x gl sy where b: "xs ! i = Some b"
        and o: "lookup h b = Some (VariableAssignment nm x gl sy)"
        by (auto simp: is_VariableAssignment_def split: option.splits obj.splits)
      from w j0 b o have ca: "is_ExprNode h x" and wx: "well_formed j1 h x" by simp_all
      have cx: "\<forall>s. ?acc x h s = Some (Inr ((x, True), h, replay v h (visit_order j1 h x) s))"
        using less.IH[of j1 x k0] wx j j0 jk by simp
      from VariableAssignment_passive[where acc = ?acc and T = "visit_order j1 h x" and s = s,
          OF p o ca cx]
      show "VariableAssignment_Accept ?acc v (xs ! i) h s =
          Some (Inr ((xs ! i, True), h, replay v h (?T (xs ! i)) s))"
        using b o j0 by simp
    qed
    have casts: "\<forall>i<length xs. is_VariableAssignment h (xs ! i)"
      using ty SetStmt by (simp add: list_all_length)
    have puts: "\<forall>i<length xs. assign (set_Variables i (xs ! i)) a h = h"
      by (intro allI impI assign_same[OF ob]) (simp add: SetStmt)
    note r = range_from_passive[where T = ?T and call = "VariableAssignment_Accept ?acc v"
        and get = get_Variables and cast = is_VariableAssignment and put = set_Variables
        and i = 0, OF p g refl calls casts puts]
    show ?thesis
      unfolding Accept_Suc(11)[OF ob[unfolded SetStmt]]
      by (simp add: SetStmt SetStmt_Accept_def passive_entered[OF p] g r)
  next
    case (Foreign kd py xs)
    have g: "get_Children h a = Some xs" by (rule get_simps(10)[OF ob[unfolded Foreign]])
    have calls: "\<forall>i<length xs. \<forall>s. ?acc (xs ! i) h s =
        Some (Inr ((xs ! i, True), h, replay v h (?T (xs ! i)) s))"
      using kids Foreign acc by (simp add: list_all_length)
    have casts: "\<forall>i<length xs. is_Node h (xs ! i)"
      by (simp add: is_Node_def)
    have puts: "\<forall>i<length xs. assign (set_Children i (xs ! i)) a h = h"
      by (intro allI impI assign_same[OF ob]) (simp add: Foreign)
    note r = range_from_passive[where T = ?T and call = ?acc and get = get_Children
        and cast = is_Node and put = set_Children and i = 0,
        OF p g refl calls casts puts]
    show ?thesis
      unfolding Accept_Suc(12)[OF ob[unfolded Foreign]]
      by (simp add: Foreign Foreign_Accept_def passive_entered[OF p] g r)
  qed
  then show ?case unfolding k n goal .
qed


lemma fields_declared:
  "c \<in> set (fields ob) \<Longrightarrow> c \<noteq> None \<Longrightarrow> c \<in> set (declared_children ob)"
  by (cases ob) auto

lemma well_formed_tree_of: "well_formed j h n \<Longrightarrow> tree_of j h n \<noteq> None"
proof (induction j arbitrary: n)
  case 0
  then show ?case by simp
next
  case (Suc j)
  from Suc.prems obtain a where n: "n = Some a" by (cases n) auto
  from Suc.prems n obtain ob where ob: "lookup h a = Some ob"
    and kids: "list_all (well_formed j h) (declared_children ob)"
    by (cases "lookup h a") auto
  have "tree_of j h c \<noteq> None" if "c \<in> set (fields ob)" for c
  proof (cases c)
    case None
    then show ?thesis by simp
  next
    case (Some b)
    with that have "c \<in> set (declared_children ob)" by (simp add: fields_declared)
    with kids have "well_formed j h c" by (simp add: list_all_iff)
    then show ?thesis by (rule Suc.IH)
  qed
  then have "None \<notin> set (map (tree_of j h) (fields ob))" by force
  with n ob show ?case by (simp add: Let_def)
qed

lemma passive_identity: "passive_visitor identity_visitor"
  by (simp add: passive_visitor_def identity_visitor_def)

lemma passive_recording: "passive_visitor v \<Longrightarrow> passive_visitor (recording v)"
  unfolding passive_visitor_def
  by (auto simp: recording_def split: prod.splits) (metis fst_conv snd_conv)+

lemma visit_order_plain: "list_all plain (visit_order j h n)"
proof (induction j arbitrary: n)
  case 0
  then show ?case by simp
next
  case (Suc j)
  show ?case
  proof (cases n)
    case None
    then show ?thesis by simp
  next
    case (Some a)
    show ?thesis
    proof (cases "lookup h a")
      case None
      with Some show ?thesis by simp
    next
      case (Some ob)
      have "list_all plain (concat (map (visit_order j h) (declared_children ob)))"
        using Suc.IH by (simp add: list_all_iff)
      with Some \<open>n = Some a\<close> show ?thesis by simp
    qed
  qed
qed

lemma replay_recording:
  assumes "passive_visitor v"
  shows "list_all plain T \<Longrightarrow> replay (recording v) h T (s, log) = (replay v h T s, log @ T)"
proof (induction T arbitrary: s log)
  case Nil
  then show ?case by simp
next
  case (Cons e T)
  then have e: "plain e" and T: "list_all plain T" by simp_all
  have "call_of (recording v) h e (s, log) = (call_of v h e s, log @ [e])"
  proof (cases e)
    case (EvEnter n b)
    with e have "b" by simp
    moreover have "fst (Enter v n h s)" using assms by (simp add: passive_visitor_def)
    ultimately show ?thesis using EvEnter by (simp add: Enter_recording)
  next
    case (EvLeave n r ok)
    with e have "r = n" "ok" by simp_all
    moreover have "fst (Leave v n h s) = (n, True)" using assms by (simp add: passive_visitor_def)
    ultimately show ?thesis using EvLeave by (simp add: Leave_recording)
  qed
  with Cons.IH[OF T] show ?case by simp
qed

section \<open>Visitors that never abort\<close>

lemma nonaborting_recording: "nonaborting v \<Longrightarrow> nonaborting (recording v)"
  unfolding nonaborting_def
  by (auto simp: recording_def split: prod.splits) (metis fst_conv snd_conv)+

lemma body_ok:
  assumes "body v sub a h s res" and "nonaborting v"
    and "\<forall>c h s res. sub c h s res \<longrightarrow> snd (fst res)"
  shows "snd (fst res)"
  using assms
proof (induction rule: body.induct)
  case (body_Leave h s r new s')
  then show ?case unfolding nonaborting_def by (metis fst_conv)
next
  case (body_abort c h s x h2 s2)
  then show ?case by fastforce
next
  case (body_child c h s x h2 s2 ob res)
  then show ?case by simp
qed

lemma frame_ok:
  assumes "frame v sub n h s res" and "nonaborting v"
    and "\<forall>c h s res. sub c h s res \<longrightarrow> snd (fst res)"
  shows "snd (fst res)"
  using assms(1)
proof (cases rule: frame.cases)
  case (frame_refused s1)
  with assms(2) show ?thesis unfolding nonaborting_def by (metis fst_conv)
next
  case (frame_entered a s1)
  from body_ok[OF frame_entered(3) assms(2,3)] show ?thesis .
qed

lemma Accept_ok:
  assumes "nonaborting v"
  shows "Accept k v n h s = Some (Inr res) \<Longrightarrow> snd (fst res)"
proof (induction k arbitrary: n h s res)
  case 0
  then show ?case by simp
next
  case (Suc k)
  have acc: "\<forall>c h s res. calls (Accept k v) c h s res \<longrightarrow> snd (fst res)"
    unfolding calls_def using Suc.IH by blast
  have "\<forall>c h s res. calls (VariableAssignment_Accept (Accept k v) v) c h s res \<longrightarrow> snd (fst res)"
    unfolding calls_def
    using frame_ok[OF VariableAssignment_Accept_frame assms acc] by blast
  with acc have "\<forall>c h s res. child_calls k v c h s res \<longrightarrow> snd (fst res)"
    unfolding calls_def child_calls_def by blast
  with Accept_frame[OF Suc.prems] assms show ?case by (rule frame_ok)
qed


lemma child_returned_True:
  assumes "child r0 a cast put rest = Some (Inr res)"
    and "\<forall>x h2 s2. r0 = Some (Inr ((x, False), h2, s2)) \<longrightarrow> False"
  obtains x h2 s2 where "r0 = Some (Inr ((x, True), h2, s2))" "cast h2 x"
    "rest (assign (put x) a h2) s2 = Some (Inr res)"
proof (cases r0)
  case None
  with assms(1) show ?thesis by (simp add: child_simps)
next
  case (Some o1)
  show ?thesis
  proof (cases o1)
    case (Inl p)
    with Some assms(1) show ?thesis by (simp add: child_simps)
  next
    case (Inr t)
    obtain x ok h2 s2 where t: "t = ((x, ok), h2, s2)" by (metis prod.exhaust)
    with Some Inr assms(2) have ok: "ok" by (cases ok) auto
    with Some Inr t assms(1) have "cast h2 x" "rest (assign (put x) a h2) s2 = Some (Inr res)"
      by (auto simp: child_simps split: if_splits)
    with Some Inr t ok that show ?thesis by simp
  qed
qed

lemma nonaborting_times_ten: "nonaborting times_ten"
  by (simp add: nonaborting_def times_ten_def Leave_times_ten_def
      split: option.splits obj.splits kind.splits list.splits)


section \<open>The claims\<close>






text \<open>
  C4. For every node variant, if \<open>Enter\<close> returns false on the node itself, \<open>Accept\<close>
  returns the receiver and false; the store is the one it was called with (no field of
  any node is written), and the only call made on the visitor is that \<open>Enter\<close> (so no
  child's \<open>Accept\<close> ran, and \<open>Leave\<close> was not called).
\<close>

theorem Enter_false_returns_receiver_untouched:
  assumes "Enter v (Some a) h s = (False, s1)" and "a < length h"
  shows "Accept (Suc k) v (Some a) h s = Some (Inr ((Some a, False), h, s1)) \<and>
         Accept (Suc k) (recording v) (Some a) h (s, log) =
           Some (Inr ((Some a, False), h, (s1, log @ [EvEnter (Some a) False])))"
proof -
  have "Enter (recording v) (Some a) h (s, log) = (False, (s1, log @ [EvEnter (Some a) False]))"
    using assms(1) by (simp add: Enter_recording)
  from Accept_Enter_False[OF this assms(2)] Accept_Enter_False[OF assms]
  show ?thesis by simp
qed

theorem Enter_false_witness:
  "Enter (times_ten_until 4) (Some 4) set_example () = (False, ()) \<and> 4 < length set_example \<and>
   Accept (Suc 0) (times_ten_until 4) (Some 4) set_example () =
     Some (Inr ((Some 4, False), set_example, ())) \<and>
   Accept (Suc 0) (recording (times_ten_until 4)) (Some 4) set_example ((), []) =
     Some (Inr ((Some 4, False), set_example, ((), [] @ [EvEnter (Some 4) False])))"
proof -
  have h1: "Enter (times_ten_until 4) (Some 4) set_example () = (False, ())"
    by code_simp
  have h2: "4 < length set_example"
    by code_simp
  from h1 h2 Enter_false_returns_receiver_untouched[OF h1 h2, of 0 "[]"] show ?thesis
    by (intro conjI) ((elim conjE)?, assumption)+
qed

text \<open>
  C7. The \<open>SetStmt\<close> with the assignments \<open>x = Literal(1)\<close> and \<open>y = Literal(2)\<close> (global),
  traversed by the visitor that replaces every \<open>Literal(n)\<close> by \<open>Literal(n * 10)\<close> in
  \<open>Leave\<close>, returns true and the \<open>SetStmt\<close> whose assignments hold \<open>Literal(10)\<close> and
  \<open>Literal(20)\<close>, names and flags as before.
\<close>

theorem SetStmt_times_ten:
  "Accept 2 times_ten (Some 4) set_example () =
     Some (Inr ((Some 4, True),
       [Literal 1, Literal 2,
        VariableAssignment ''x'' (Some 5) False False,
        VariableAssignment ''y'' (Some 6) True False,
        SetStmt [Some 2, Some 3], Literal 10, Literal 20], ())) \<and>
   tree_of 3
       [Literal 1, Literal 2,
        VariableAssignment ''x'' (Some 5) False False,
        VariableAssignment ''y'' (Some 6) True False,
        SetStmt [Some 2, Some 3], Literal 10, Literal 20] (Some 4) =
     Some (Tree (SetStmt [])
       [Tree (VariableAssignment ''x'' None False False) [Tree (Literal 10) []],
        Tree (VariableAssignment ''y'' None True False) [Tree (Literal 20) []]])"
  by code_simp

text \<open>
  C9. When \<open>Accept\<close> on a node returns, either it returns the receiver itself and false,
  or it returns exactly what the visitor's \<open>Leave\<close> returned on the receiver. With the
  calls recorded: either the receiver and false are returned and the log ends with the
  failing call, or \<open>Enter\<close> on the receiver returned true, no call of the children's
  traversals failed, and \<open>Leave\<close> on the receiver is the last call and returned the
  result. So a node other than the receiver comes out of \<open>Accept\<close> only through \<open>Leave\<close>,
  after all children have succeeded.
\<close>

theorem abort_returns_receiver_else_Leave:
  "(Accept k v (Some a) h s = Some (Inr ((r, ok), h', s')) \<longrightarrow>
      (r = Some a \<and> \<not> ok) \<or>
      (\<exists>h1 s1 new. Leave v (Some a) h1 s1 = ((r, ok), new, s') \<and> h' = h1 @ new)) \<and>
   (Accept j (recording w) (Some b) g (t, log) = Some (Inr ((q, fl), g', (t', log'))) \<longrightarrow>
      (q = Some b \<and> \<not> fl \<and> (\<exists>T. log' = log @ T \<and> aborted T)) \<or>
      (\<exists>M. log' = log @ EvEnter (Some b) True # M @ [EvLeave (Some b) q fl] \<and> quiet M))"
proof (intro conjI impI)
  assume run: "Accept k v (Some a) h s = Some (Inr ((r, ok), h', s'))"
  then obtain k' where "k = Suc k'" by (cases k) auto
  with run have "frame v (child_calls k' v) (Some a) h s ((r, ok), h', s')"
    by (simp add: Accept_frame)
  from frame_result[OF this]
  show "(r = Some a \<and> \<not> ok) \<or>
      (\<exists>h1 s1 new. Leave v (Some a) h1 s1 = ((r, ok), new, s') \<and> h' = h1 @ new)"
    by blast
next
  assume "Accept j (recording w) (Some b) g (t, log) = Some (Inr ((q, fl), g', (t', log')))"
  from Accept_protocol[OF this] obtain T where T: "log' = log @ T" "protocol (Some b) q fl T"
    by blast
  from protocol_cases[OF T(2)] T(1)
  show "(q = Some b \<and> \<not> fl \<and> (\<exists>T. log' = log @ T \<and> aborted T)) \<or>
      (\<exists>M. log' = log @ EvEnter (Some b) True # M @ [EvLeave (Some b) q fl] \<and> quiet M)"
    by auto
qed

theorem abort_returns_receiver_witness:
  "Accept 2 (times_ten_until 1) (Some 3) execute_example () =
     Some (Inr ((Some 3, False), execute_first_replaced, ())) \<and>
   ((Some 3 = Some (3::nat) \<and> \<not> False) \<or>
    (\<exists>h1 s1 new. Leave (times_ten_until 1) (Some 3) h1 s1 = ((Some 3, False), new, ()) \<and>
       execute_first_replaced = h1 @ new)) \<and>
   Accept 2 (recording times_ten) (Some 1) assignment_example ((), []) =
     Some (Inr ((Some 1, True),
       [Literal 7, VariableAssignment ''x'' (Some 2) False False, Literal 70],
       ((), [EvEnter (Some 1) True, EvEnter (Some 0) True, EvLeave (Some 0) (Some 2) True,
             EvLeave (Some 1) (Some 1) True]))) \<and>
   ((Some 1 = Some (1::nat) \<and> \<not> True \<and>
     (\<exists>T. [EvEnter (Some 1) True, EvEnter (Some 0) True, EvLeave (Some 0) (Some 2) True,
            EvLeave (Some 1) (Some 1) True] = [] @ T \<and> aborted T)) \<or>
    (\<exists>M. [EvEnter (Some 1) True, EvEnter (Some 0) True, EvLeave (Some 0) (Some 2) True,
           EvLeave (Some 1) (Some 1) True] =
          [] @ EvEnter (Some 1) True # M @ [EvLeave (Some 1) (Some 1) True] \<and> quiet M))"
proof -
  have h1: "Accept 2 (times_ten_until 1) (Some 3) execute_example () =
     Some (Inr ((Some 3, False), execute_first_replaced, ()))"
    by code_simp
  have h2: "Accept 2 (recording times_ten) (Some 1) assignment_example ((), []) =
     Some (Inr ((Some 1, True),
       [Literal 7, VariableAssignment ''x'' (Some 2) False False, Literal 70],
       ((), [EvEnter (Some 1) True, EvEnter (Some 0) True, EvLeave (Some 0) (Some 2) True,
             EvLeave (Some 1) (Some 1) True])))"
    by code_simp
  note t = abort_returns_receiver_else_Leave
    [where k = 2 and v = "times_ten_until 1" and a = 3 and h = execute_example and s = "()"
       and r = "Some 3" and ok = False and h' = execute_first_replaced and s' = "()"
       and j = 2 and w = times_ten and b = 1 and g = assignment_example and t = "()"
       and log = "[]" and q = "Some 1" and fl = True
       and g' = "[Literal 7, VariableAssignment ''x'' (Some 2) False False, Literal 70]"
       and t' = "()"
       and log' = "[EvEnter (Some 1) True, EvEnter (Some 0) True,
                    EvLeave (Some 0) (Some 2) True, EvLeave (Some 1) (Some 1) True]"]
  note c1 = t[THEN conjunct1, THEN mp, OF h1]
  note c2 = t[THEN conjunct2, THEN mp, OF h2]
  from h1 c1 h2 c2 show ?thesis
    by (intro conjI) ((elim conjE)?, assumption)+
qed

text \<open>
  C10. One invocation of \<open>Accept\<close> on a node, with any visitor, recorded. The method calls
  \<open>Enter\<close> on the node once, first. If \<open>Enter\<close> returns false this is its only call on the
  visitor: the log grows by this one call and \<open>(n, false)\<close> is returned. Otherwise all
  further calls are made by the traversals of children (\<open>children\<close>), each appending its own
  log, until either one of them fails, and then the method returns \<open>(n, false)\<close> without
  calling \<open>Leave\<close>; or all have succeeded, and then the method calls \<open>Leave\<close> on the node
  once, as the last call, and returns what it returns. For the structs without
  children (\<open>DeallocateStmt\<close>, \<open>BeginStmt\<close>, \<open>CommitStmt\<close>, \<open>RollbackStmt\<close>, \<open>UseStmt\<close>) the
  traversal always returns, and its log is \<open>Enter\<close> alone when \<open>Enter\<close> returns false, and
  \<open>Enter\<close> followed at once by \<open>Leave\<close> otherwise.
\<close>

theorem Enter_first_Leave_last:
  "(Accept (Suc k) (recording v) n h (s, log) = Some (Inr ((r, ok), h', (s', log'))) \<longrightarrow>
      (Enter v n h s = (False, s') \<and> r = n \<and> \<not> ok \<and> h' = h \<and> log' = log @ [EvEnter n False]) \<or>
      (\<exists>a s1 Ts. n = Some a \<and> Enter v n h s = (True, s1) \<and>
         children k v a h (s1, log @ [EvEnter n True]) Ts False h' (s', log') \<and>
         r = n \<and> \<not> ok \<and> log' = log @ EvEnter n True # concat Ts) \<or>
      (\<exists>a s1 Ts h2 s2 new. n = Some a \<and> Enter v n h s = (True, s1) \<and>
         children k v a h (s1, log @ [EvEnter n True]) Ts True h2
           (s2, log @ EvEnter n True # concat Ts) \<and>
         Leave v n h2 s2 = ((r, ok), new, s') \<and> h' = h2 @ new \<and>
         log' = log @ EvEnter n True # concat Ts @ [EvLeave n r ok])) \<and>
   (lookup g b = Some ob \<and> childless ob \<longrightarrow>
      Accept (Suc j) (recording w) (Some b) g (t, lg) =
        (case Enter w (Some b) g t of
           (False, t1) \<Rightarrow> Some (Inr ((Some b, False), g, (t1, lg @ [EvEnter (Some b) False])))
         | (True, t1) \<Rightarrow>
             (case Leave w (Some b) g t1 of
                ((q, fl), new, t2) \<Rightarrow>
                  Some (Inr ((q, fl), g @ new,
                    (t2, lg @ [EvEnter (Some b) True, EvLeave (Some b) q fl]))))))"
proof (rule conjI; rule impI)
  assume run: "Accept (Suc k) (recording v) n h (s, log) = Some (Inr ((r, ok), h', (s', log')))"
  let ?res = "((r, ok), h', (s', log'))"
  from Accept_frame[OF run]
  have "frame (recording v) (child_calls k (recording v)) n h (s, log) ?res" .
  then show "(Enter v n h s = (False, s') \<and> r = n \<and> \<not> ok \<and> h' = h \<and> log' = log @ [EvEnter n False]) \<or>
     (\<exists>a s1 Ts. n = Some a \<and> Enter v n h s = (True, s1) \<and>
        children k v a h (s1, log @ [EvEnter n True]) Ts False h' (s', log') \<and>
        r = n \<and> \<not> ok \<and> log' = log @ EvEnter n True # concat Ts) \<or>
     (\<exists>a s1 Ts h2 s2 new. n = Some a \<and> Enter v n h s = (True, s1) \<and>
        children k v a h (s1, log @ [EvEnter n True]) Ts True h2
          (s2, log @ EvEnter n True # concat Ts) \<and>
        Leave v n h2 s2 = ((r, ok), new, s') \<and> h' = h2 @ new \<and>
        log' = log @ EvEnter n True # concat Ts @ [EvLeave n r ok])"
  proof (cases rule: frame.cases)
    case frame_refused
    then have "Enter v n h s = (False, s') \<and> r = n \<and> \<not> ok \<and> h' = h \<and>
        log' = log @ [EvEnter n False]"
      by (cases "Enter v n h s") (auto simp: Enter_recording)
    then show ?thesis by (rule disjI1)
  next
    case (frame_entered a st1)
    from frame_entered(2) obtain s1 where e: "Enter v n h s = (True, s1)"
      and st1: "st1 = (s1, log @ [EvEnter n True])"
      by (cases "Enter v n h s") (auto simp: Enter_recording frame_entered(1))
    from body_children[OF frame_entered(3) refl]
    show ?thesis
    proof (elim disjE exE conjE)
      fix Ts
      assume "children k v a h st1 Ts False (fst (snd ?res)) (snd (snd ?res))"
        "fst ?res = (Some a, False)" "told ?res = snd st1 @ concat Ts"
      with e frame_entered(1) have "n = Some a \<and> Enter v n h s = (True, s1) \<and>
        children k v a h (s1, log @ [EvEnter n True]) Ts False h' (s', log') \<and>
        r = n \<and> \<not> ok \<and> log' = log @ EvEnter n True # concat Ts"
        by (simp add: st1 told_def)
      then show ?thesis by blast
    next
      fix Ts h2 s2 new
      assume "children k v a h st1 Ts True h2 (s2, snd st1 @ concat Ts)"
        "Leave v (Some a) h2 s2 = (fst ?res, new, fst (snd (snd ?res)))"
        "fst (snd ?res) = h2 @ new"
        "told ?res = snd st1 @ concat Ts @ [EvLeave (Some a) (fst (fst ?res)) (snd (fst ?res))]"
      with e frame_entered(1) have "n = Some a \<and> Enter v n h s = (True, s1) \<and>
        children k v a h (s1, log @ [EvEnter n True]) Ts True h2
          (s2, log @ EvEnter n True # concat Ts) \<and>
        Leave v n h2 s2 = ((r, ok), new, s') \<and> h' = h2 @ new \<and>
        log' = log @ EvEnter n True # concat Ts @ [EvLeave n r ok]"
        by (simp add: st1 told_def)
      then show ?thesis by blast
    qed
  qed
next
  assume "lookup g b = Some ob \<and> childless ob"
  then have l: "lookup g b = Some ob" and c: "childless ob" by simp_all
  have "Accept (Suc j) (recording w) (Some b) g (t, lg) =
     (case Enter (recording w) (Some b) g (t, lg) of
        (False, s1) \<Rightarrow> Some (Inr ((Some b, False), g, s1))
      | (True, s1) \<Rightarrow>
          (case Leave (recording w) (Some b) g s1 of
             (r, new, s2) \<Rightarrow> Some (Inr (r, g @ new, s2))))"
    by (rule childless_Accept[OF l c])
  then show "Accept (Suc j) (recording w) (Some b) g (t, lg) =
        (case Enter w (Some b) g t of
           (False, t1) \<Rightarrow> Some (Inr ((Some b, False), g, (t1, lg @ [EvEnter (Some b) False])))
         | (True, t1) \<Rightarrow>
             (case Leave w (Some b) g t1 of
                ((q, fl), new, t2) \<Rightarrow>
                  Some (Inr ((q, fl), g @ new,
                    (t2, lg @ [EvEnter (Some b) True, EvLeave (Some b) q fl])))))"
    by (simp add: Enter_recording Leave_recording split: prod.splits bool.splits)
qed

theorem Enter_first_Leave_last_witness:
  "Accept (Suc 1) (recording times_ten) (Some 1) assignment_example ((), []) =
     Some (Inr ((Some 1, True),
       [Literal 7, VariableAssignment ''x'' (Some 2) False False, Literal 70],
       ((), [EvEnter (Some 1) True, EvEnter (Some 0) True, EvLeave (Some 0) (Some 2) True,
             EvLeave (Some 1) (Some 1) True]))) \<and>
   ((Enter times_ten (Some 1) assignment_example () = (False, ()) \<and> Some 1 = Some (1::nat) \<and>
     \<not> True \<and>
     [Literal 7, VariableAssignment ''x'' (Some 2) False False, Literal 70] =
       assignment_example \<and>
     [EvEnter (Some 1) True, EvEnter (Some 0) True, EvLeave (Some 0) (Some 2) True,
      EvLeave (Some 1) (Some 1) True] = [] @ [EvEnter (Some 1) False]) \<or>
    (\<exists>a s1 Ts. Some 1 = Some a \<and> Enter times_ten (Some 1) assignment_example () = (True, s1) \<and>
       children 1 times_ten a assignment_example (s1, [] @ [EvEnter (Some 1) True]) Ts False
         [Literal 7, VariableAssignment ''x'' (Some 2) False False, Literal 70]
         ((), [EvEnter (Some 1) True, EvEnter (Some 0) True, EvLeave (Some 0) (Some 2) True,
               EvLeave (Some 1) (Some 1) True]) \<and>
       Some 1 = Some (1::nat) \<and> \<not> True \<and>
       [EvEnter (Some 1) True, EvEnter (Some 0) True, EvLeave (Some 0) (Some 2) True,
        EvLeave (Some 1) (Some 1) True] = [] @ EvEnter (Some 1) True # concat Ts) \<or>
    (\<exists>a s1 Ts h2 s2 new. Some 1 = Some a \<and>
       Enter times_ten (Some 1) assignment_example () = (True, s1) \<and>
       children 1 times_ten a assignment_example (s1, [] @ [EvEnter (Some 1) True]) Ts True h2
         (s2, [] @ EvEnter (Some 1) True # concat Ts) \<and>
       Leave times_ten (Some 1) h2 s2 = ((Some 1, True), new, ()) \<and>
       [Literal 7, VariableAssignment ''x'' (Some 2) False False, Literal 70] = h2 @ new \<and>
       [EvEnter (Some 1) True, EvEnter (Some 0) True, EvLeave (Some 0) (Some 2) True,
        EvLeave (Some 1) (Some 1) True] =
       [] @ EvEnter (Some 1) True # concat Ts @ [EvLeave (Some 1) (Some 1) True])) \<and>
   lookup prepare_example 0 = Some BeginStmt \<and> childless BeginStmt \<and>
   Accept (Suc 0) (recording times_ten) (Some 0) prepare_example ((), []) =
     (case Enter times_ten (Some 0) prepare_example () of
        (False, t1) \<Rightarrow>
          Some (Inr ((Some 0, False), prepare_example, (t1, [] @ [EvEnter (Some 0) False])))
      | (True, t1) \<Rightarrow>
          (case Leave times_ten (Some 0) prepare_example t1 of
             ((q, fl), new, t2) \<Rightarrow>
               Some (Inr ((q, fl), prepare_example @ new,
                 (t2, [] @ [EvEnter (Some 0) True, EvLeave (Some 0) q fl])))))"
proof -
  have h1: "Accept (Suc 1) (recording times_ten) (Some 1) assignment_example ((), []) =
     Some (Inr ((Some 1, True),
       [Literal 7, VariableAssignment ''x'' (Some 2) False False, Literal 70],
       ((), [EvEnter (Some 1) True, EvEnter (Some 0) True, EvLeave (Some 0) (Some 2) True,
             EvLeave (Some 1) (Some 1) True])))"
    by code_simp
  have h2: "lookup prepare_example 0 = Some BeginStmt \<and> childless BeginStmt"
    by code_simp
  note t = Enter_first_Leave_last
    [where k = 1 and v = times_ten and n = "Some 1" and h = assignment_example and s = "()"
       and log = "[]" and r = "Some 1" and ok = True
       and h' = "[Literal 7, VariableAssignment ''x'' (Some 2) False False, Literal 70]"
       and s' = "()"
       and log' = "[EvEnter (Some 1) True, EvEnter (Some 0) True,
                    EvLeave (Some 0) (Some 2) True, EvLeave (Some 1) (Some 1) True]"
       and g = prepare_example and b = 0 and ob = BeginStmt and j = 0 and w = times_ten
       and t = "()" and lg = "[]"]
  note c1 = t[THEN conjunct1, THEN mp, OF h1]
  note c2 = t[THEN conjunct2, THEN mp, OF h2]
  from h1 c1 h2 c2 show ?thesis
    by (intro conjI) ((elim conjE)?, assumption)+
qed
text \<open>
  C2. On every store that is well formed below the node, for every node variant, the
  traversal with the identity visitor returns the node it was given and true, and leaves
  the store as it was, so that the tree returned is deep-equal to the input; the calls it
  made, recorded, are those of \<open>visit_order\<close>: \<open>Enter\<close> on the node, then every declared
  child once, in the order of the fields (for \<open>ShowStmt\<close>: \<open>Table\<close>, \<open>Column\<close>, \<open>Pattern\<close>,
  \<open>Where\<close>; for the sequences: sequence order), then \<open>Leave\<close> on the node. Any fuel that is at
  least the depth of the tree gives this result.
\<close>

theorem identity_visitor_complete:
  assumes "well_formed j h n" and "j \<le> k"
  shows "Accept k (recording identity_visitor) n h ((), log) =
           Some (Inr ((n, True), h, ((), log @ visit_order j h n))) \<and>
         deep_equal j h n h n"
proof -
  have "Accept k (recording identity_visitor) n h ((), log) =
      Some (Inr ((n, True), h,
        replay (recording identity_visitor) h (visit_order j h n) ((), log)))"
    by (rule passive_traversal[OF passive_recording[OF passive_identity] assms])
  moreover have "replay (recording identity_visitor) h (visit_order j h n) ((), log) =
      ((), log @ visit_order j h n)"
    by (simp add: replay_recording[OF passive_identity visit_order_plain])
  ultimately show ?thesis
    using well_formed_tree_of[OF assms(1)] by (simp add: deep_equal_def)
qed

theorem identity_visitor_complete_witness:
  "well_formed 2 show_full_example (Some 4) \<and> (2::nat) \<le> 2 \<and>
   visit_order 2 show_full_example (Some 4) =
     [EvEnter (Some 4) True,
      EvEnter (Some 0) True, EvLeave (Some 0) (Some 0) True,
      EvEnter (Some 1) True, EvLeave (Some 1) (Some 1) True,
      EvEnter (Some 2) True, EvLeave (Some 2) (Some 2) True,
      EvEnter (Some 3) True, EvLeave (Some 3) (Some 3) True,
      EvLeave (Some 4) (Some 4) True] \<and>
   Accept 2 (recording identity_visitor) (Some 4) show_full_example ((), []) =
     Some (Inr ((Some 4, True), show_full_example,
       ((), [] @ visit_order 2 show_full_example (Some 4)))) \<and>
   deep_equal 2 show_full_example (Some 4) show_full_example (Some 4)"
proof -
  have h1: "well_formed 2 show_full_example (Some 4)"
    by code_simp
  have h2: "(2::nat) \<le> 2"
    by simp
  have v: "visit_order 2 show_full_example (Some 4) =
     [EvEnter (Some 4) True,
      EvEnter (Some 0) True, EvLeave (Some 0) (Some 0) True,
      EvEnter (Some 1) True, EvLeave (Some 1) (Some 1) True,
      EvEnter (Some 2) True, EvLeave (Some 2) (Some 2) True,
      EvEnter (Some 3) True, EvLeave (Some 3) (Some 3) True,
      EvLeave (Some 4) (Some 4) True]"
    by code_simp
  from h1 h2 v identity_visitor_complete[OF h1 h2, of "[]"] show ?thesis
    by (intro conjI) ((elim conjE)?, assumption)+
qed

text \<open>
  C8. On every store that is well formed below the node, the identity visitor's pass
  returns, and a second pass over what the first returned returns as well; the tree after
  the second pass is deep-equal to the tree after the first.
\<close>

theorem identity_pass_idempotent:
  assumes "well_formed j h n" and "j \<le> k"
  shows "\<exists>r1 h1. Accept k identity_visitor n h () = Some (Inr ((r1, True), h1, ())) \<and>
           (\<exists>r2 h2. Accept k identity_visitor r1 h1 () = Some (Inr ((r2, True), h2, ())) \<and>
              deep_equal j h2 r2 h1 r1)"
proof -
  have "Accept k identity_visitor n h () = Some (Inr ((n, True), h, ()))"
    using passive_traversal[OF passive_identity assms, of "()"] by simp
  then show ?thesis
    using well_formed_tree_of[OF assms(1)] by (auto simp: deep_equal_def)
qed

theorem identity_pass_idempotent_witness:
  "well_formed 3 set_example (Some 4) \<and> (3::nat) \<le> 3 \<and>
   (\<exists>r1 h1. Accept 3 identity_visitor (Some 4) set_example () =
        Some (Inr ((r1, True), h1, ())) \<and>
      (\<exists>r2 h2. Accept 3 identity_visitor r1 h1 () = Some (Inr ((r2, True), h2, ())) \<and>
         deep_equal 3 h2 r2 h1 r1))"
proof -
  have h1: "well_formed 3 set_example (Some 4)"
    by code_simp
  have h2: "(3::nat) \<le> 3"
    by simp
  from h1 h2 identity_pass_idempotent[OF h1 h2] show ?thesis
    by (intro conjI) ((elim conjE)?, assumption)+
qed

text \<open>
  C5. A \<open>ShowStmt\<close> whose \<open>Table\<close>, \<open>Column\<close> and \<open>Pattern\<close> are nil and whose \<open>Where\<close> is
  present. With a visitor that never aborts (it may replace nodes), recorded: a
  traversal that returns has returned true, and it has made \<open>Enter\<close> on the \<open>ShowStmt\<close>, then
  the one call \<open>Accept\<close> on the \<open>Where\<close> clause, which appended its own log \<open>Tw\<close> and returned
  \<open>rw\<close>, then the assignment of \<open>rw\<close> to \<open>Where\<close>, then \<open>Leave\<close> on the \<open>ShowStmt\<close>; the log is
  \<open>Enter\<close>, \<open>Tw\<close>, \<open>Leave\<close>, so the nil fields contribute no call. With a passive visitor on
  a well-formed store the traversal returns, and the log between the two calls on the
  \<open>ShowStmt\<close> is the visit order of the \<open>Where\<close> clause alone.
\<close>

theorem ShowStmt_only_Where_is_visited:
  "(lookup h a = Some (ShowStmt tg db None None fl fu gs None (Some w)) \<and> nonaborting v \<and>
    Accept (Suc k) (recording v) (Some a) h (s, log) = Some (Inr ((r, ok), h', (s', log'))) \<longrightarrow>
      ok \<and> (\<exists>s1 rw hw sw Tw new.
        Enter v (Some a) h s = (True, s1) \<and>
        Accept k (recording v) (Some w) h (s1, log @ [EvEnter (Some a) True]) =
          Some (Inr ((rw, True), hw, (sw, log @ EvEnter (Some a) True # Tw))) \<and>
        Leave v (Some a) (assign (set_Where rw) a hw) sw = ((r, True), new, s') \<and>
        h' = assign (set_Where rw) a hw @ new \<and>
        log' = log @ EvEnter (Some a) True # Tw @ [EvLeave (Some a) r True])) \<and>
   (lookup g b = Some (ShowStmt tg' db' None None fl' fu' gs' None (Some w')) \<and>
    passive_visitor u \<and> well_formed (Suc j) g (Some b) \<and> j \<le> i \<longrightarrow>
      Accept (Suc i) (recording u) (Some b) g (t, lg) =
        Some (Inr ((Some b, True), g,
          (replay u g (visit_order (Suc j) g (Some b)) t,
           lg @ EvEnter (Some b) True # visit_order j g (Some w') @
             [EvLeave (Some b) (Some b) True]))))"
proof (rule conjI; rule impI)
  assume A: "lookup h a = Some (ShowStmt tg db None None fl fu gs None (Some w)) \<and>
    nonaborting v \<and>
    Accept (Suc k) (recording v) (Some a) h (s, log) = Some (Inr ((r, ok), h', (s', log')))"
  from A have ob: "lookup h a = Some (ShowStmt tg db None None fl fu gs None (Some w))"
    by (rule conjunct1)
  from A have na: "nonaborting v"
    by (rule conjunct1[OF conjunct2])
  from A have run: "Accept (Suc k) (recording v) (Some a) h (s, log) =
      Some (Inr ((r, ok), h', (s', log')))"
    by (rule conjunct2[OF conjunct2])
  note nr = nonaborting_recording[OF na]
  from Accept_ok[OF nr run] have ok: "ok" by simp
  obtain s1 where e: "Enter v (Some a) h s = (True, s1)"
    using na unfolding nonaborting_def by (metis fst_conv prod.exhaust)
  let ?st1 = "(s1, log @ [EvEnter (Some a) True])"
  have c: "child (Accept k (recording v) (Some w) h ?st1) a is_ExprNode set_Where
      (return_Leave (recording v) (Some a)) = Some (Inr ((r, ok), h', (s', log')))"
    using run[unfolded Accept_Suc(5)[OF ob]] e
    by (simp add: ShowStmt_Accept_def ShowStmt_Table_def
        ShowStmt_Column_def ShowStmt_Pattern_def ShowStmt_Where_def get_simps(4-7)[OF ob]
        Enter_recording)
  have nf: "\<forall>x h2 s2. Accept k (recording v) (Some w) h ?st1 = Some (Inr ((x, False), h2, s2))
      \<longrightarrow> False"
    using Accept_ok[OF nr] by fastforce
  from child_returned_True[OF c nf] obtain x h2 s2 where
    x: "Accept k (recording v) (Some w) h ?st1 = Some (Inr ((x, True), h2, s2))"
    and l: "return_Leave (recording v) (Some a) (assign (set_Where x) a h2) s2 =
      Some (Inr ((r, ok), h', (s', log')))"
    by blast
  obtain s2' log2 where s2: "s2 = (s2', log2)" by (cases s2)
  from Accept_protocol[OF x[unfolded s2]] obtain Tw where
    Tw: "log2 = (log @ [EvEnter (Some a) True]) @ Tw"
    by blast
  obtain q new t2 where lq: "Leave v (Some a) (assign (set_Where x) a h2) s2' = (q, new, t2)"
    by (metis prod.exhaust)
  from l lq have lv: "Leave v (Some a) (assign (set_Where x) a h2) s2' = ((r, ok), new, s')"
    and h': "h' = assign (set_Where x) a h2 @ new"
    and lg: "log' = log2 @ [EvLeave (Some a) r ok]"
    by (auto simp: return_Leave_def returned_def s2 Leave_recording)
  from x s2 Tw have x': "Accept k (recording v) (Some w) h ?st1 =
      Some (Inr ((x, True), h2, (s2', log @ EvEnter (Some a) True # Tw)))"
    by simp
  from lg Tw ok have lg': "log' = log @ EvEnter (Some a) True # Tw @ [EvLeave (Some a) r True]"
    by simp
  from lv ok have lv': "Leave v (Some a) (assign (set_Where x) a h2) s2' = ((r, True), new, s')"
    by simp
  from ok e x' lv' h' lg'
  show "ok \<and> (\<exists>s1 rw hw sw Tw new.
        Enter v (Some a) h s = (True, s1) \<and>
        Accept k (recording v) (Some w) h (s1, log @ [EvEnter (Some a) True]) =
          Some (Inr ((rw, True), hw, (sw, log @ EvEnter (Some a) True # Tw))) \<and>
        Leave v (Some a) (assign (set_Where rw) a hw) sw = ((r, True), new, s') \<and>
        h' = assign (set_Where rw) a hw @ new \<and>
        log' = log @ EvEnter (Some a) True # Tw @ [EvLeave (Some a) r True])"
    by blast
next
  assume B: "lookup g b = Some (ShowStmt tg' db' None None fl' fu' gs' None (Some w')) \<and>
    passive_visitor u \<and> well_formed (Suc j) g (Some b) \<and> j \<le> i"
  from B have ob: "lookup g b = Some (ShowStmt tg' db' None None fl' fu' gs' None (Some w'))"
    by (rule conjunct1)
  from B have p: "passive_visitor u"
    by (rule conjunct1[OF conjunct2])
  from B have wf: "well_formed (Suc j) g (Some b)"
    by (rule conjunct1[OF conjunct2[OF conjunct2]])
  from B have "j \<le> i"
    by (rule conjunct2[OF conjunct2[OF conjunct2]])
  then have ji: "Suc j \<le> Suc i" by simp
  have "Accept (Suc i) (recording u) (Some b) g (t, lg) =
      Some (Inr ((Some b, True), g,
        replay (recording u) g (visit_order (Suc j) g (Some b)) (t, lg)))"
    by (rule passive_traversal[OF passive_recording[OF p] wf ji])
  moreover have "replay (recording u) g (visit_order (Suc j) g (Some b)) (t, lg) =
      (replay u g (visit_order (Suc j) g (Some b)) t, lg @ visit_order (Suc j) g (Some b))"
    by (rule replay_recording[OF p visit_order_plain])
  moreover have "visit_order (Suc j) g (Some b) =
      EvEnter (Some b) True # visit_order j g (Some w') @ [EvLeave (Some b) (Some b) True]"
    using ob by simp
  ultimately show "Accept (Suc i) (recording u) (Some b) g (t, lg) =
        Some (Inr ((Some b, True), g,
          (replay u g (visit_order (Suc j) g (Some b)) t,
           lg @ EvEnter (Some b) True # visit_order j g (Some w') @
             [EvLeave (Some b) (Some b) True])))"
    by simp
qed

theorem ShowStmt_only_Where_witness:
  "lookup show_example 1 = Some (ShowStmt 0 ''db'' None None 0 False False None (Some 0)) \<and>
   nonaborting times_ten \<and>
   Accept (Suc 1) (recording times_ten) (Some 1) show_example ((), []) =
     Some (Inr ((Some 1, True),
       [Literal 1, ShowStmt 0 ''db'' None None 0 False False None (Some 2), Literal 10],
       ((), [EvEnter (Some 1) True, EvEnter (Some 0) True, EvLeave (Some 0) (Some 2) True,
             EvLeave (Some 1) (Some 1) True]))) \<and>
   (True \<and> (\<exists>s1 rw hw sw Tw new.
      Enter times_ten (Some 1) show_example () = (True, s1) \<and>
      Accept 1 (recording times_ten) (Some 0) show_example (s1, [] @ [EvEnter (Some 1) True]) =
        Some (Inr ((rw, True), hw, (sw, [] @ EvEnter (Some 1) True # Tw))) \<and>
      Leave times_ten (Some 1) (assign (set_Where rw) 1 hw) sw = ((Some 1, True), new, ()) \<and>
      [Literal 1, ShowStmt 0 ''db'' None None 0 False False None (Some 2), Literal 10] =
        assign (set_Where rw) 1 hw @ new \<and>
      [EvEnter (Some 1) True, EvEnter (Some 0) True, EvLeave (Some 0) (Some 2) True,
       EvLeave (Some 1) (Some 1) True] =
      [] @ EvEnter (Some 1) True # Tw @ [EvLeave (Some 1) (Some 1) True])) \<and>
   passive_visitor identity_visitor \<and> well_formed (Suc 1) show_example (Some 1) \<and>
   (1::nat) \<le> 1 \<and>
   visit_order 1 show_example (Some 0) = [EvEnter (Some 0) True, EvLeave (Some 0) (Some 0) True] \<and>
   Accept (Suc 1) (recording identity_visitor) (Some 1) show_example ((), []) =
     Some (Inr ((Some 1, True), show_example,
       (replay identity_visitor show_example (visit_order (Suc 1) show_example (Some 1)) (),
        [] @ EvEnter (Some 1) True # visit_order 1 show_example (Some 0) @
          [EvLeave (Some 1) (Some 1) True])))"
proof -
  have ob: "lookup show_example 1 =
      Some (ShowStmt 0 ''db'' None None 0 False False None (Some 0))"
    by code_simp
  have run: "Accept (Suc 1) (recording times_ten) (Some 1) show_example ((), []) =
     Some (Inr ((Some 1, True),
       [Literal 1, ShowStmt 0 ''db'' None None 0 False False None (Some 2), Literal 10],
       ((), [EvEnter (Some 1) True, EvEnter (Some 0) True, EvLeave (Some 0) (Some 2) True,
             EvLeave (Some 1) (Some 1) True])))"
    by code_simp
  have wf: "well_formed (Suc 1) show_example (Some 1)"
    by code_simp
  have le: "(1::nat) \<le> 1"
    by simp
  have vo: "visit_order 1 show_example (Some 0) =
      [EvEnter (Some 0) True, EvLeave (Some 0) (Some 0) True]"
    by code_simp
  note t = ShowStmt_only_Where_is_visited
    [where h = show_example and a = 1 and tg = 0 and db = "''db''" and fl = 0 and fu = False
       and gs = False and w = 0 and v = times_ten and k = 1 and s = "()" and log = "[]"
       and r = "Some 1" and ok = True
       and h' = "[Literal 1, ShowStmt 0 ''db'' None None 0 False False None (Some 2),
                  Literal 10]"
       and s' = "()"
       and log' = "[EvEnter (Some 1) True, EvEnter (Some 0) True,
                    EvLeave (Some 0) (Some 2) True, EvLeave (Some 1) (Some 1) True]"
       and g = show_example and b = 1 and tg' = 0 and db' = "''db''" and fl' = 0
       and fu' = False and gs' = False and w' = 0 and u = identity_visitor and j = 1
       and i = 1 and t = "()" and lg = "[]"]
  note c1 = t[THEN conjunct1, THEN mp, OF conjI[OF ob conjI[OF nonaborting_times_ten run]]]
  note c2 = t[THEN conjunct2, THEN mp,
    OF conjI[OF ob conjI[OF passive_identity conjI[OF wf le]]]]
  from ob nonaborting_times_ten run c1 passive_identity wf le vo c2 show ?thesis
    by (intro conjI) ((elim conjE)?, assumption)+
qed

end
